theory Spec2Isabelle
  imports Main "HOL-Library.AList"
begin

section \<open>Strings\<close>

text \<open>
  A JavaScript string is a sequence of code units. The model uses \<open>string\<close>, so it covers
  the code units below 256: this is the whole range of an HTTP header value as Node
  delivers it (header bytes are decoded as Latin-1); of the lines that the user types, it
  covers those written with these code units.

  \<open>is_ws\<close> is the white space that \<open>String.prototype.trim\<close> and \<open>parseInt\<close> strip
  (WhiteSpace and LineTerminator of ECMAScript), cut down to that range: TAB, LF, VT, FF,
  CR, SPACE and NBSP.
\<close>

definition is_ws :: "char \<Rightarrow> bool" where
  "is_ws c = (c \<in> set [CHR 0x09, CHR 0x0A, CHR 0x0B, CHR 0x0C, CHR 0x0D, CHR 0x20, CHR 0xA0])"

text \<open>\<open>s.trim()\<close>: white space removed from both ends.\<close>

definition trim :: "string \<Rightarrow> string" where
  "trim s = rev (dropWhile is_ws (rev (dropWhile is_ws s)))"

text \<open>
  \<open>s.split(sep)\<close> for a separator of one code unit: the pieces between the separators,
  empty pieces included; the empty string gives one empty piece.
\<close>

fun js_split :: "char \<Rightarrow> string \<Rightarrow> string list" where
  "js_split sep [] = [[]]"
| "js_split sep (c # cs) =
     (if c = sep then [] # js_split sep cs
      else (case js_split sep cs of
              piece # pieces \<Rightarrow> (c # piece) # pieces
            | [] \<Rightarrow> [[c]]))"

text \<open>\<open>xs.join(sep)\<close> on an array of strings.\<close>

fun js_join :: "string \<Rightarrow> string list \<Rightarrow> string" where
  "js_join sep [] = []"
| "js_join sep [x] = x"
| "js_join sep (x # y # ys) = x @ sep @ js_join sep (y # ys)"

text \<open>
  \<open>s.toUpperCase()\<close> on the ASCII letters. The other code units are left as they are:
  none of them has an upper-case form that contains \<open>P\<close>, \<open>A\<close> or \<open>Q\<close>, and the program
  only compares the result with these three one-letter strings.
\<close>

definition upper_char :: "char \<Rightarrow> char" where
  "upper_char c =
     (if 97 \<le> (of_char c :: int) \<and> (of_char c :: int) \<le> 122
      then char_of ((of_char c :: int) - 32) else c)"

definition toUpperCase :: "string \<Rightarrow> string" where
  "toUpperCase s = map upper_char s"

section \<open>Numbers in strings\<close>

text \<open>
  The value of a code unit as a digit (\<open>0\<close>-\<open>9\<close>, then the letters for 10 to 35), and
  the value of a digit string in a radix. Numbers read from strings are \<open>int\<close>.
\<close>

definition digit_value :: "char \<Rightarrow> int option" where
  "digit_value c =
     (let n = (of_char c :: int) in
      if 48 \<le> n \<and> n \<le> 57 then Some (n - 48)
      else if 97 \<le> n \<and> n \<le> 122 then Some (n - 87)
      else if 65 \<le> n \<and> n \<le> 90 then Some (n - 55)
      else None)"

definition is_radix_digit :: "int \<Rightarrow> char \<Rightarrow> bool" where
  "is_radix_digit R c = (case digit_value c of Some v \<Rightarrow> v < R | None \<Rightarrow> False)"

definition digit_of :: "char \<Rightarrow> int" where
  "digit_of c = (case digit_value c of Some v \<Rightarrow> v | None \<Rightarrow> 0)"

definition radix_value :: "int \<Rightarrow> string \<Rightarrow> int" where
  "radix_value R s = foldl (\<lambda>n c. R * n + digit_of c) 0 s"

text \<open>
  \<open>parseInt(s)\<close> with no radix argument: leading white space is skipped, a sign is read,
  a prefix \<open>0x\<close> or \<open>0X\<close> selects radix 16, and the longest prefix of digits is the
  number; everything after it is ignored. \<open>None\<close> is \<open>NaN\<close> (no digit at all).

  The result is the exact integer. JavaScript rounds it to a double, which is the same
  number below \<open>2^53\<close> and is at least \<open>2^53\<close> from there on; the program only
  compares \<open>parseInt(answer) - 1\<close> with \<open>0\<close> and with the length of an array of keys
  (below \<open>2^32\<close>), so the rounding decides no comparison.
\<close>

definition parseInt :: "string \<Rightarrow> int option" where
  "parseInt s =
     (let S = dropWhile is_ws s;
          sign = (if S \<noteq> [] \<and> hd S = CHR ''-'' then - 1 else (1::int));
          S1 = (if S \<noteq> [] \<and> (hd S = CHR ''+'' \<or> hd S = CHR ''-'') then tl S else S);
          hex = (2 \<le> length S1 \<and> (take 2 S1 = ''0x'' \<or> take 2 S1 = ''0X''));
          R = (if hex then 16 else 10);
          S2 = (if hex then drop 2 S1 else S1);
          Z = takeWhile (is_radix_digit R) S2
      in if Z = [] then None else Some (sign * radix_value R Z))"

text \<open>Decimal rendering of a natural number, as \<open>String(n)\<close> and template literals do.\<close>

fun show_nat :: "nat \<Rightarrow> string" where
  "show_nat n =
     (if n < 10 then [char_of (48 + n)]
      else show_nat (n div 10) @ [char_of (48 + n mod 10)])"

declare show_nat.simps [simp del]

section \<open>The directives object\<close>

text \<open>
  \<open>directives\<close> is a plain JavaScript object used as a dictionary from directive names to
  arrays of strings. The model is the list of its own properties in the order in which
  \<open>Object.keys\<close> and \<open>Object.entries\<close> enumerate them: first the keys that are array
  indices (the canonical decimal strings of the integers from 0 to \<open>2^32 - 2\<close>) in
  ascending numeric order, then every other string key in the order of its creation.
\<close>

type_synonym directives = "(string \<times> string list) list"

definition is_array_index :: "string \<Rightarrow> bool" where
  "is_array_index s =
     (s \<noteq> [] \<and> list_all (is_radix_digit 10) s
      \<and> (if hd s = CHR ''0'' then s = ''0'' else True)
      \<and> radix_value 10 s \<le> 4294967294)"

text \<open>A new array-index key goes in front of the first key that is not a smaller index.\<close>

fun insert_index :: "string \<Rightarrow> string list \<Rightarrow> directives \<Rightarrow> directives" where
  "insert_index k v [] = [(k, v)]"
| "insert_index k v ((k', v') # d) =
     (if is_array_index k' \<and> radix_value 10 k' < radix_value 10 k
      then (k', v') # insert_index k v d
      else (k, v) # (k', v') # d)"

text \<open>
  \<open>directives[k] = v\<close>. An existing own property keeps its place and takes the new value.
  A new key is placed by the rule above. The key \<open>__proto__\<close> is the accessor inherited
  from \<open>Object.prototype\<close>: the assignment of an array to it replaces the prototype of the
  object and creates no own property, so nothing that \<open>Object.keys\<close>,
  \<open>Object.entries\<close> or a read of an own key can see changes.
\<close>

definition obj_set :: "string \<Rightarrow> string list \<Rightarrow> directives \<Rightarrow> directives" where
  "obj_set k v d =
     (if k = ''__proto__'' then d
      else if k \<in> set (map fst d) then AList.update k v d
      else if is_array_index k then insert_index k v d
      else d @ [(k, v)])"

definition Object_keys :: "directives \<Rightarrow> string list" where
  "Object_keys d = map fst d"

section \<open>Parser and serializer\<close>

text \<open>
  \<open>deserializeCSP\<close>: the clauses (\<open>pairs\<close>) are the trimmed, nonempty pieces between the
  \<open>;\<close>. Each clause is split at every single space and every piece is trimmed; the first
  piece is the name and the others are the values. The destructuring of an empty array
  would bind \<open>directive\<close> to \<open>undefined\<close>, which as a property key is the string
  \<open>undefined\<close>.
\<close>

definition csp_pairs :: "string \<Rightarrow> string list" where
  "csp_pairs cspString = filter (\<lambda>d. d \<noteq> []) (map trim (js_split CHR '';'' cspString))"

definition clause_tokens :: "string \<Rightarrow> string list" where
  "clause_tokens pair = map trim (js_split CHR '' '' pair)"

definition deserializeCSP :: "string \<Rightarrow> directives" where
  "deserializeCSP cspString =
     foldl (\<lambda>directives pair.
              (case clause_tokens pair of
                 directive # values \<Rightarrow> obj_set directive values directives
               | [] \<Rightarrow> obj_set ''undefined'' [] directives))
           [] (csp_pairs cspString)"

definition serializeCSP :: "directives \<Rightarrow> string" where
  "serializeCSP directives =
     js_join ''; '' (map (\<lambda>(key, values). key @ '' '' @ js_join '' '' values) directives)"

section \<open>The interactive editor\<close>

text \<open>
  The editor is written in continuation-passing style: every function prints, asks a
  question with \<open>rl.question\<close> and returns; the callback runs when the next line arrives.
  A session is the object, the question that is pending (the state) and everything written
  so far. \<open>CRASHED\<close> is the uncaught \<open>TypeError\<close> of \<open>directives[directive].join\<close> on a
  key that is not there; no session reaches it (\<open>start_not_CRASHED\<close> below).
\<close>

datatype state = MENU | EDIT_VALUE string | ADD_NAME | TERMINATED | CRASHED

datatype event = Log string | Error_log string | Question string | WriteFile string string

record session =
  st :: state
  dirs :: directives
  out :: "event list"

text \<open>\<open>console.log("\x1b[<code>m%s\x1b[0m", text)\<close>.\<close>

definition coloured :: "string \<Rightarrow> string \<Rightarrow> string" where
  "coloured code text = CHR 0x1B # ''['' @ code @ ''m'' @ text @ CHR 0x1B # ''[0m''"

definition menu_line :: "nat \<Rightarrow> string \<times> string list \<Rightarrow> event" where
  "menu_line index e =
     Log (show_nat (index + 1) @ '': '' @ coloured ''33'' (fst e) @ '' - '' @ js_join '' '' (snd e))"

definition menu_events :: "directives \<Rightarrow> event list" where
  "menu_events d =
     [Log (coloured ''36'' (''Your CSP has '' @ show_nat (length (Object_keys d)) @ '' directives.''))]
     @ map (\<lambda>(index, e). menu_line index e) (enumerate 0 d)
     @ [Log (coloured ''32'' ''A: Add a new directive''),
        Log (coloured ''32'' ''P: Print the full CSP string and exit''),
        Log (coloured ''31'' ''Q: Quit the application''),
        Question ''Select a directive number to edit, A to add, P to print, or Q to quit: '']"

definition editCSP :: "directives \<Rightarrow> event list \<Rightarrow> session" where
  "editCSP d evs = \<lparr>st = MENU, dirs = d, out = evs @ menu_events d\<rparr>"

definition addDirective :: "directives \<Rightarrow> event list \<Rightarrow> session" where
  "addDirective d evs =
     \<lparr>st = ADD_NAME, dirs = d,
      out = evs @ [Question (''Enter the new directive name and values (e.g., '' @ [CHR 0x27]
                     @ ''script-src https://example.com'' @ [CHR 0x27] @ ''): '')]\<rparr>"

text \<open>\<open>line.split(" ").filter((v) => v)\<close>: the nonempty pieces between the spaces.\<close>

definition space_tokens :: "string \<Rightarrow> string list" where
  "space_tokens line = filter (\<lambda>v. v \<noteq> []) (js_split CHR '' '' line)"

text \<open>The callback of the menu question.\<close>

definition invalid_selection :: "session \<Rightarrow> session" where
  "invalid_selection s = editCSP (dirs s) (out s @ [Log ''Invalid selection. Please try again.''])"

definition on_answer :: "string \<Rightarrow> session \<Rightarrow> session" where
  "on_answer answer s =
     (if toUpperCase answer = ''P'' then
        (let finalCSP = serializeCSP (dirs s) in
         s\<lparr>st := TERMINATED,
           out := out s @
             [Log (CHR 0x0A # ''Final CSP String (also saved to '' @ [CHR 0x27]
                   @ ''generated_csp.txt'' @ [CHR 0x27] @ ''):''),
              Log (CHR 0x0A # ''Final CSP String (copy and paste this line):''),
              Log (coloured ''32'' finalCSP),
              WriteFile ''generated_csp.txt'' finalCSP,
              Log (CHR 0x0A # ''To copy the CSP to your clipboard, run: '' @ [CHR 0x27]
                   @ ''cat ./generated_csp.txt | pbcopy'' @ [CHR 0x27])]\<rparr>)
      else if toUpperCase answer = ''A'' then addDirective (dirs s) (out s)
      else if toUpperCase answer = ''Q'' then
        s\<lparr>st := TERMINATED, out := out s @ [Log ''Exiting the application.'']\<rparr>
      else
        (case parseInt answer of
           None \<Rightarrow> invalid_selection s
         | Some n \<Rightarrow>
             (let directiveIndex = n - 1;
                  directiveKeys = Object_keys (dirs s)
              in if directiveIndex \<ge> 0 \<and> directiveIndex < int (length directiveKeys) then
                   (let directive = directiveKeys ! nat directiveIndex in
                    case map_of (dirs s) directive of
                      Some values \<Rightarrow>
                        s\<lparr>st := EDIT_VALUE directive,
                          out := out s @
                            [Question (''Edit the value for '' @ coloured ''33'' directive
                               @ '' (current: '' @ js_join '' '' values @ ''): '')]\<rparr>
                    | None \<Rightarrow> s\<lparr>st := CRASHED\<rparr>)
                 else invalid_selection s)))"

text \<open>The callback of the question for the new value of \<open>directive\<close>.\<close>

definition on_newValue :: "string \<Rightarrow> string \<Rightarrow> session \<Rightarrow> session" where
  "on_newValue directive newValue s =
     editCSP (obj_set directive (space_tokens newValue) (dirs s)) (out s)"

text \<open>
  The callback of \<open>addDirective\<close>. With no token, \<open>directive\<close> is \<open>undefined\<close>, which is
  falsy; a token is a nonempty string, which is truthy.
\<close>

definition on_newDirective :: "string \<Rightarrow> session \<Rightarrow> session" where
  "on_newDirective newDirective s =
     (case space_tokens newDirective of
        directive # values \<Rightarrow> editCSP (obj_set directive values (dirs s)) (out s)
      | [] \<Rightarrow> addDirective (dirs s) (out s @ [Log ''Invalid directive. Please try again.'']))"

text \<open>One line of input, given to the callback that is waiting for it.\<close>

definition step :: "session \<Rightarrow> string \<Rightarrow> session" where
  "step s line =
     (case st s of
        MENU \<Rightarrow> on_answer line s
      | EDIT_VALUE directive \<Rightarrow> on_newValue directive line s
      | ADD_NAME \<Rightarrow> on_newDirective line s
      | TERMINATED \<Rightarrow> s
      | CRASHED \<Rightarrow> s)"

definition run :: "session \<Rightarrow> string list \<Rightarrow> session" where
  "run s inputs = foldl step s inputs"

text \<open>
  \<open>getCSP\<close> and the start of the program, with the outcome of the request as an argument:
  the header of the response (if it has one), or the message of the failure. A missing
  header, an empty header and a failed request all give the empty object. Without a URL
  the editor is not started.
\<close>

datatype fetched = Response "string option" | Failure string

definition getCSP :: "string \<Rightarrow> fetched \<Rightarrow> directives \<times> event list" where
  "getCSP url r =
     (case r of
        Response (Some csp) \<Rightarrow>
          (if csp \<noteq> [] then (deserializeCSP csp, [])
           else ([], [Log (''No Content Security Policy found for '' @ url)]))
      | Response None \<Rightarrow> ([], [Log (''No Content Security Policy found for '' @ url)])
      | Failure msg \<Rightarrow> ([], [Error_log (''Error fetching the URL: '' @ msg)]))"

definition start :: "string option \<Rightarrow> fetched \<Rightarrow> session" where
  "start arg r =
     (case arg of
        None \<Rightarrow> \<lparr>st = TERMINATED, dirs = [], out = [Log ''Please provide a URL as an argument'']\<rparr>
      | Some url \<Rightarrow>
          (if url = [] then
             \<lparr>st = TERMINATED, dirs = [], out = [Log ''Please provide a URL as an argument'']\<rparr>
           else (case getCSP url r of (d, evs) \<Rightarrow> editCSP d evs)))"

section \<open>Vocabulary of the properties\<close>

text \<open>
  The shape of every object the program can build: distinct keys, the array indices first
  and ascending, and no own property \<open>__proto__\<close>.
\<close>

definition key_before :: "string \<Rightarrow> string \<Rightarrow> bool" where
  "key_before a b =
     (if is_array_index a
      then (if is_array_index b then radix_value 10 a < radix_value 10 b else True)
      else \<not> is_array_index b)"

definition obj_wf :: "directives \<Rightarrow> bool" where
  "obj_wf d =
     (distinct (map fst d) \<and> sorted_wrt key_before (map fst d) \<and> ''__proto__'' \<notin> set (map fst d))"

text \<open>
  A session whose object has that shape and whose pending question, when it asks for the
  new value of a directive, names a key of the object.
\<close>

definition session_ok :: "session \<Rightarrow> bool" where
  "session_ok s =
     (obj_wf (dirs s)
      \<and> (case st s of EDIT_VALUE k \<Rightarrow> k \<in> set (Object_keys (dirs s)) | _ \<Rightarrow> True))"

text \<open>The name and the values of a clause, and the clauses of a policy in their order.\<close>

definition clause_entry :: "string \<Rightarrow> string \<times> string list" where
  "clause_entry pair = (hd (clause_tokens pair), tl (clause_tokens pair))"

definition csp_entries :: "string \<Rightarrow> (string \<times> string list) list" where
  "csp_entries cspString = map clause_entry (csp_pairs cspString)"

text \<open>The elements of a list in the order of their first occurrence.\<close>

fun first_occs :: "'a list \<Rightarrow> 'a list" where
  "first_occs [] = []"
| "first_occs (x # xs) = x # first_occs (filter (\<lambda>y. y \<noteq> x) xs)"

text \<open>No name and no value contains the clause separator.\<close>

definition no_separator :: "directives \<Rightarrow> bool" where
  "no_separator d =
     list_all (\<lambda>e. CHR '';'' \<notin> set (fst e) \<and> list_all (\<lambda>v. CHR '';'' \<notin> set v) (snd e)) d"

text \<open>
  What the parser guarantees of a name and its values: no space and no \<open>;\<close> in them,
  no white space at their ends, a nonempty name, and a last value that is not empty.
\<close>

definition token_ok :: "string \<Rightarrow> bool" where
  "token_ok t = (CHR '' '' \<notin> set t \<and> CHR '';'' \<notin> set t \<and> trim t = t)"

definition entry_ok :: "string \<times> string list \<Rightarrow> bool" where
  "entry_ok e =
     (fst e \<noteq> [] \<and> token_ok (fst e) \<and> list_all token_ok (snd e)
      \<and> (snd e = [] \<or> last (snd e) \<noteq> []))"

text \<open>One clause as \<open>serializeCSP\<close> writes it.\<close>

definition render :: "string \<times> string list \<Rightarrow> string" where
  "render e = fst e @ '' '' @ js_join '' '' (snd e)"

text \<open>
  The words of the specification, for comparison with the code: a line split on white space
  into tokens, empty tokens discarded; and an input that is, as a whole, the decimal
  numeral of an integer.
\<close>

fun split_ws :: "string \<Rightarrow> string list" where
  "split_ws [] = [[]]"
| "split_ws (c # cs) =
     (if is_ws c then [] # split_ws cs
      else (case split_ws cs of
              piece # pieces \<Rightarrow> (c # piece) # pieces
            | [] \<Rightarrow> [[c]]))"

definition spec_tokens :: "string \<Rightarrow> string list" where
  "spec_tokens line = filter (\<lambda>v. v \<noteq> []) (split_ws line)"

definition spec_integer :: "string \<Rightarrow> int option" where
  "spec_integer s =
     (let digits = (if s \<noteq> [] \<and> hd s = CHR ''-'' then tl s else s)
      in if digits \<noteq> [] \<and> list_all (is_radix_digit 10) digits
         then Some ((if s \<noteq> [] \<and> hd s = CHR ''-'' then - 1 else 1) * radix_value 10 digits)
         else None)"

section \<open>Splitting, joining and trimming\<close>

lemma js_split_not_Nil [simp]: "js_split sep s \<noteq> []"
  by (induction s) (auto split: list.splits)

lemma js_split_Cons_other:
  "c \<noteq> sep \<Longrightarrow> js_split sep (c # s) = (c # hd (js_split sep s)) # tl (js_split sep s)"
  by (cases "js_split sep s") auto

lemma js_split_no_sep: "sep \<notin> set s \<Longrightarrow> js_split sep s = [s]"
  by (induction s) auto

lemma js_split_append: "sep \<notin> set a \<Longrightarrow> js_split sep (a @ sep # b) = a # js_split sep b"
  by (induction a) auto

lemma js_split_pieces: "p \<in> set (js_split sep s) \<Longrightarrow> sep \<notin> set p"
  by (induction s arbitrary: p) (auto split: if_splits list.splits)

lemma js_split_subset: "p \<in> set (js_split sep s) \<Longrightarrow> set p \<subseteq> set s"
  by (induction s arbitrary: p) (fastforce split: if_splits list.splits)+

lemma js_join_Cons: "ts \<noteq> [] \<Longrightarrow> js_join sep (t # ts) = t @ sep @ js_join sep ts"
  by (cases ts) auto

lemma split_join_char:
  "ts \<noteq> [] \<Longrightarrow> \<forall>t\<in>set ts. c \<notin> set t \<Longrightarrow> js_split c (js_join [c] ts) = ts"
proof (induction ts)
  case Nil
  then show ?case by simp
next
  case (Cons t ts)
  show ?case
  proof (cases "ts = []")
    case True
    with Cons.prems show ?thesis by (simp add: js_split_no_sep)
  next
    case False
    with Cons show ?thesis by (simp add: js_join_Cons js_split_append)
  qed
qed

lemma split_join_semi:
  "rs \<noteq> [] \<Longrightarrow> \<forall>r\<in>set rs. CHR '';'' \<notin> set r \<Longrightarrow>
   js_split CHR '';'' (js_join ''; '' rs) = hd rs # map (\<lambda>r. CHR '' '' # r) (tl rs)"
proof (induction rs)
  case Nil
  then show ?case by simp
next
  case (Cons r rs)
  show ?case
  proof (cases "rs = []")
    case True
    with Cons.prems show ?thesis by (simp add: js_split_no_sep)
  next
    case False
    then obtain r' rs' where rs: "rs = r' # rs'" by (cases rs) auto
    have "js_split CHR '';'' (js_join ''; '' (r # rs))
        = r # js_split CHR '';'' (CHR '' '' # js_join ''; '' rs)"
      using Cons.prems False by (simp add: js_join_Cons js_split_append)
    also have "js_split CHR '';'' (CHR '' '' # js_join ''; '' rs)
        = (CHR '' '' # hd (js_split CHR '';'' (js_join ''; '' rs))) # tl (js_split CHR '';'' (js_join ''; '' rs))"
      by (rule js_split_Cons_other) simp
    finally show ?thesis using Cons.IH False Cons.prems by (simp add: rs)
  qed
qed

lemma trim_Nil [simp]: "trim [] = []" by (simp add: trim_def)

lemma trim_ws_Cons: "is_ws c \<Longrightarrow> trim (c # s) = trim s"
  by (simp add: trim_def)

lemma trim_ws_snoc: "is_ws c \<Longrightarrow> trim (s @ [c]) = trim s"
proof (cases "\<forall>x\<in>set s. is_ws x")
  case True
  assume c: "is_ws c"
  from True have 1: "dropWhile is_ws s = []" by simp
  from True c have 2: "dropWhile is_ws (s @ [c]) = []" by simp
  show ?thesis by (simp only: trim_def 1 2)
next
  case False
  assume c: "is_ws c"
  from False have "dropWhile is_ws (s @ [c]) = dropWhile is_ws s @ [c]"
    by (auto simp: dropWhile_append1)
  with c show ?thesis by (simp add: trim_def)
qed

lemma trim_id: "s \<noteq> [] \<Longrightarrow> \<not> is_ws (hd s) \<Longrightarrow> \<not> is_ws (last s) \<Longrightarrow> trim s = s"
proof -
  assume a: "s \<noteq> []" "\<not> is_ws (hd s)" "\<not> is_ws (last s)"
  then have 1: "dropWhile is_ws s = s" by (cases s) auto
  from a have "rev s \<noteq> []" "\<not> is_ws (hd (rev s))" by (simp_all add: hd_rev)
  then have 2: "dropWhile is_ws (rev s) = rev s" by (cases "rev s") auto
  show ?thesis by (simp add: trim_def 1 2)
qed

lemma trim_ends:
  assumes "trim s \<noteq> []"
  shows "\<not> is_ws (hd (trim s))" and "\<not> is_ws (last (trim s))"
proof -
  define u where "u = dropWhile is_ws s"
  define w where "w = dropWhile is_ws (rev u)"
  have t: "trim s = rev w" by (simp add: trim_def u_def w_def)
  with assms have w: "w \<noteq> []" by simp
  then have "\<not> is_ws (hd w)" unfolding w_def by (rule hd_dropWhile)
  then show "\<not> is_ws (last (trim s))" using w by (simp add: t last_rev)
  from w have u: "u \<noteq> []" by (auto simp: w_def)
  then have hu: "\<not> is_ws (hd u)" unfolding u_def by (rule hd_dropWhile)
  obtain pre where "rev u = pre @ w"
    unfolding w_def by (metis takeWhile_dropWhile_id)
  then have "last w = last (rev u)" using w by simp
  then show "\<not> is_ws (hd (trim s))" using hu u w by (simp add: t hd_rev last_rev)
qed

lemma trim_idem [simp]: "trim (trim s) = trim s"
proof (cases "trim s = []")
  case True
  then show ?thesis by simp
next
  case False
  then show ?thesis by (intro trim_id trim_ends)
qed

lemma set_trim: "set (trim s) \<subseteq> set s"
proof -
  have "set (trim s) \<subseteq> set (dropWhile is_ws s)"
    unfolding trim_def by (metis set_dropWhileD set_rev subsetI)
  also have "\<dots> \<subseteq> set s" by (auto dest: set_dropWhileD)
  finally show ?thesis .
qed

section \<open>Decimal numerals\<close>

lemma is_decimal_digit_iff:
  "is_radix_digit 10 c \<longleftrightarrow> 48 \<le> (of_char c :: int) \<and> (of_char c :: int) \<le> 57"
  by (auto simp: is_radix_digit_def digit_value_def Let_def)

lemma digit_of_decimal: "is_radix_digit 10 c \<Longrightarrow> digit_of c = of_char c - 48"
  by (auto simp: is_decimal_digit_iff digit_of_def digit_value_def Let_def)

lemma digit_of_range: "is_radix_digit 10 c \<Longrightarrow> 0 \<le> digit_of c \<and> digit_of c < 10"
  by (auto simp: is_decimal_digit_iff digit_of_decimal)

lemma char_of_digit_of: "is_radix_digit 10 c \<Longrightarrow> char_of (48 + nat (digit_of c)) = c"
proof -
  assume d: "is_radix_digit 10 c"
  then have "int (48 + nat (digit_of c)) = int (of_char c)"
    by (simp add: is_decimal_digit_iff digit_of_decimal of_nat_of_char)
  then have "48 + nat (digit_of c) = of_char c"
    by (simp only: of_nat_eq_iff)
  then show ?thesis by simp
qed

lemma digit_of_zero_iff: "is_radix_digit 10 c \<Longrightarrow> digit_of c = 0 \<longleftrightarrow> c = CHR ''0''"
proof -
  assume d: "is_radix_digit 10 c"
  have "(of_char c :: int) = 48 \<longleftrightarrow> (of_char c :: int) = of_char CHR ''0''" by simp
  also have "\<dots> \<longleftrightarrow> c = CHR ''0''" by (rule of_char_eq_iff)
  finally show ?thesis using d by (simp add: digit_of_decimal)
qed

lemma radix_value_snoc: "radix_value R (s @ [c]) = R * radix_value R s + digit_of c"
  by (simp add: radix_value_def)

lemma radix_value_Nil [simp]: "radix_value R [] = 0"
  by (simp add: radix_value_def)

lemma radix_value_single [simp]: "radix_value R [c] = digit_of c"
  by (simp add: radix_value_def)

lemma radix_value_nonneg: "list_all (is_radix_digit 10) s \<Longrightarrow> 0 \<le> radix_value 10 s"
  by (induction s rule: rev_induct) (auto simp: radix_value_snoc digit_of_range)

lemma radix_value_pos:
  "s \<noteq> [] \<Longrightarrow> list_all (is_radix_digit 10) s \<Longrightarrow> hd s \<noteq> CHR ''0'' \<Longrightarrow> 1 \<le> radix_value 10 s"
proof (induction s rule: rev_induct)
  case Nil
  then show ?case by simp
next
  case (snoc c s)
  show ?case
  proof (cases "s = []")
    case True
    with snoc.prems have "digit_of c \<noteq> 0" "0 \<le> digit_of c"
      by (simp_all add: digit_of_zero_iff digit_of_range)
    with True show ?thesis by (simp add: radix_value_snoc)
  next
    case False
    with snoc have "1 \<le> radix_value 10 s" by simp
    moreover from snoc.prems have "0 \<le> digit_of c" by (simp add: digit_of_range)
    ultimately show ?thesis by (simp add: radix_value_snoc)
  qed
qed

lemma show_nat_radix_value:
  "s \<noteq> [] \<Longrightarrow> list_all (is_radix_digit 10) s \<Longrightarrow> (hd s = CHR ''0'' \<longrightarrow> s = ''0'') \<Longrightarrow>
   show_nat (nat (radix_value 10 s)) = s"
proof (induction s rule: rev_induct)
  case Nil
  then show ?case by simp
next
  case (snoc c s)
  from snoc.prems have dc: "is_radix_digit 10 c" by simp
  then have r: "0 \<le> digit_of c" "digit_of c < 10" by (simp_all add: digit_of_range)
  show ?case
  proof (cases "s = []")
    case True
    with r have "nat (radix_value 10 (s @ [c])) < 10" by (simp add: radix_value_snoc)
    then have "show_nat (nat (radix_value 10 (s @ [c]))) = [char_of (48 + nat (radix_value 10 (s @ [c])))]"
      by (subst show_nat.simps) simp
    with True dc show ?thesis by (simp add: radix_value_snoc char_of_digit_of)
  next
    case False
    with snoc.prems have h: "hd s \<noteq> CHR ''0''" by (cases s) auto
    with False snoc.prems have v: "1 \<le> radix_value 10 s" by (intro radix_value_pos) auto
    from False snoc.prems h have ih: "show_nat (nat (radix_value 10 s)) = s"
      by (intro snoc.IH) auto
    define n where "n = nat (radix_value 10 (s @ [c]))"
    have n: "n = 10 * nat (radix_value 10 s) + nat (digit_of c)"
      using v r by (simp add: n_def radix_value_snoc nat_add_distrib nat_mult_distrib)
    with v have "\<not> n < 10" by simp
    then have "show_nat n = show_nat (n div 10) @ [char_of (48 + n mod 10)]"
      by (subst show_nat.simps) simp
    moreover have "n div 10 = nat (radix_value 10 s)" "n mod 10 = nat (digit_of c)"
      using r by (simp_all add: n)
    ultimately show ?thesis using ih dc by (simp add: n_def[symmetric] char_of_digit_of)
  qed
qed

lemma array_index_show: "is_array_index s \<Longrightarrow> show_nat (nat (radix_value 10 s)) = s"
  by (rule show_nat_radix_value) (auto simp: is_array_index_def split: if_splits)

lemma array_index_inj:
  "is_array_index a \<Longrightarrow> is_array_index b \<Longrightarrow> radix_value 10 a = radix_value 10 b \<Longrightarrow> a = b"
  by (metis array_index_show)

section \<open>Assignments to the object\<close>

lemma set_insert_index [simp]: "set (insert_index k v d) = insert (k, v) (set d)"
  by (induction d) (auto split: if_splits)

lemma map_of_snoc_new:
  "k \<notin> set (map fst d) \<Longrightarrow> map_of (d @ [(k, v)]) = (map_of d)(k \<mapsto> v)"
  by (induction d) (auto simp: fun_upd_twist)

lemma keys_insert_index_filter:
  "\<not> P k \<Longrightarrow> filter P (map fst (insert_index k v d)) = filter P (map fst d)"
  by (induction d) auto

lemma map_of_insert_index:
  "k \<notin> set (map fst d) \<Longrightarrow> map_of (insert_index k v d) = (map_of d)(k \<mapsto> v)"
  by (induction d) (auto simp: fun_upd_twist)

lemma distinct_insert_index:
  "k \<notin> set (map fst d) \<Longrightarrow> distinct (map fst d) \<Longrightarrow> distinct (map fst (insert_index k v d))"
  by (induction d) (auto simp: image_iff)

lemma sorted_insert_index:
  "is_array_index k \<Longrightarrow> k \<notin> set (map fst d) \<Longrightarrow> sorted_wrt key_before (map fst d) \<Longrightarrow>
   sorted_wrt key_before (map fst (insert_index k v d))"
proof (induction d)
  case Nil
  then show ?case by simp
next
  case (Cons e d)
  obtain a w where e: "e = (a, w)" by (cases e)
  from Cons.prems have ak: "a \<noteq> k" and kd: "k \<notin> set (map fst d)"
    and s: "\<forall>x\<in>set (map fst d). key_before a x" and sd: "sorted_wrt key_before (map fst d)"
    by (auto simp: e)
  show ?case
  proof (cases "is_array_index a \<and> radix_value 10 a < radix_value 10 k")
    case True
    then have "key_before a k" using Cons.prems(1) by (simp add: key_before_def)
    with True s Cons.IH[OF Cons.prems(1) kd sd] show ?thesis by (auto simp: e)
  next
    case False
    have ka: "key_before k a"
    proof (cases "is_array_index a")
      case True
      with False have "radix_value 10 k \<le> radix_value 10 a" by simp
      moreover have "radix_value 10 k \<noteq> radix_value 10 a"
        using array_index_inj[OF Cons.prems(1) True] ak by auto
      ultimately show ?thesis using True Cons.prems(1) by (simp add: key_before_def)
    next
      case False
      with Cons.prems(1) show ?thesis by (simp add: key_before_def)
    qed
    have "key_before k x" if "x \<in> set (map fst d)" for x
    proof -
      from s that have "key_before a x" by blast
      with ka Cons.prems(1) show ?thesis
        by (auto simp: key_before_def split: if_splits)
    qed
    with ka False s sd show ?thesis by (auto simp: e)
  qed
qed

lemma insert_index_at_end:
  "\<forall>a\<in>set (map fst d). is_array_index a \<and> radix_value 10 a < radix_value 10 k \<Longrightarrow>
   insert_index k v d = d @ [(k, v)]"
  by (induction d) auto

lemma keys_update_present:
  "k \<in> set (map fst d) \<Longrightarrow> map fst (AList.update k v d) = map fst d"
  by (simp add: update_keys)

lemma set_update_subset: "set (AList.update k v d) \<subseteq> insert (k, v) (set d)"
  by (induction d) auto

lemma obj_wf_Nil [simp]: "obj_wf []"
  by (simp add: obj_wf_def)

lemma keys_insert_index:
  "set (map fst (insert_index k v d)) = insert k (set (map fst d))"
  by (induction d) auto

lemma obj_set_cases [case_names proto present index other]:
  obtains "k = ''__proto__''" "obj_set k v d = d"
  | "k \<noteq> ''__proto__''" "k \<in> set (map fst d)" "obj_set k v d = AList.update k v d"
  | "k \<noteq> ''__proto__''" "k \<notin> set (map fst d)" "is_array_index k"
      "obj_set k v d = insert_index k v d"
  | "k \<noteq> ''__proto__''" "k \<notin> set (map fst d)" "\<not> is_array_index k"
      "obj_set k v d = d @ [(k, v)]"
  unfolding obj_set_def by (cases "k = ''__proto__''"; cases "k \<in> set (map fst d)";
      cases "is_array_index k") simp_all

lemma obj_wf_obj_set: "obj_wf d \<Longrightarrow> obj_wf (obj_set k v d)"
proof (cases k v d rule: obj_set_cases)
  case proto
  assume "obj_wf d"
  with proto show ?thesis by simp
next
  case present
  assume "obj_wf d"
  with present show ?thesis by (simp add: obj_wf_def keys_update_present del: set_map)
next
  case index
  assume "obj_wf d"
  with index show ?thesis
    by (simp add: obj_wf_def distinct_insert_index sorted_insert_index keys_insert_index
        del: set_map)
next
  case other
  assume "obj_wf d"
  with other show ?thesis
    by (auto simp: obj_wf_def sorted_wrt_append key_before_def)
qed

lemma set_obj_set: "set (obj_set k v d) \<subseteq> insert (k, v) (set d)"
  using set_update_subset[of k v d] by (cases k v d rule: obj_set_cases) auto

lemma keys_obj_set:
  "set (map fst (obj_set k v d)) =
     (if k = ''__proto__'' then set (map fst d) else insert k (set (map fst d)))"
  by (cases k v d rule: obj_set_cases)
    (simp_all add: keys_update_present keys_insert_index insert_absorb del: set_map)

lemma map_of_obj_set:
  "map_of (obj_set k v d) = (if k = ''__proto__'' then map_of d else (map_of d)(k \<mapsto> v))"
proof (cases k v d rule: obj_set_cases)
  case proto
  then show ?thesis by simp
next
  case present
  then show ?thesis by (simp add: update_conv')
next
  case index
  then show ?thesis using map_of_insert_index[of k d v] by simp
next
  case other
  then show ?thesis using map_of_snoc_new[of k d v] by simp
qed

lemma rebuild:
  "obj_wf d \<Longrightarrow> foldl (\<lambda>a e. obj_set (fst e) (snd e) a) [] d = d"
proof (induction d rule: rev_induct)
  case Nil
  then show ?case by simp
next
  case (snoc e d)
  obtain k v where e: "e = (k, v)" by (cases e)
  from snoc.prems have wf: "obj_wf d" and kd: "k \<notin> set (map fst d)" and kp: "k \<noteq> ''__proto__''"
    and s: "\<forall>a\<in>set (map fst d). key_before a k"
    by (auto simp: obj_wf_def e sorted_wrt_append)
  have "obj_set k v d = d @ [(k, v)]"
  proof (cases "is_array_index k")
    case True
    with s have "\<forall>a\<in>set (map fst d). is_array_index a \<and> radix_value 10 a < radix_value 10 k"
      by (auto simp: key_before_def split: if_splits)
    then have "insert_index k v d = d @ [(k, v)]" by (rule insert_index_at_end)
    with True kd kp show ?thesis by (simp add: obj_set_def)
  next
    case False
    with kd kp show ?thesis by (simp add: obj_set_def)
  qed
  with snoc.IH[OF wf] show ?case by (simp add: e)
qed

section \<open>What the parser builds\<close>

lemma hd_js_split:
  "s \<noteq> [] \<Longrightarrow> hd s \<noteq> sep \<Longrightarrow> hd (js_split sep s) \<noteq> [] \<and> hd (hd (js_split sep s)) = hd s"
proof -
  assume a: "s \<noteq> []" "hd s \<noteq> sep"
  then obtain c cs where s: "s = c # cs" by (cases s) auto
  obtain p ps where r: "js_split sep cs = p # ps" by (cases "js_split sep cs") simp_all
  from a show ?thesis by (simp add: s r)
qed

lemma last_js_split:
  "s \<noteq> [] \<Longrightarrow> last s \<noteq> sep \<Longrightarrow>
   last (js_split sep s) \<noteq> [] \<and> last (last (js_split sep s)) = last s"
proof (induction s)
  case Nil
  then show ?case by simp
next
  case (Cons c cs)
  show ?case
  proof (cases "cs = []")
    case True
    with Cons.prems show ?thesis by simp
  next
    case False
    with Cons have ih: "last (js_split sep cs) \<noteq> []" "last (last (js_split sep cs)) = last cs"
      by simp_all
    obtain p ps where r: "js_split sep cs = p # ps"
      by (cases "js_split sep cs") simp_all
    show ?thesis
      using ih False by (cases "ps = []") (auto simp: r)
  qed
qed

lemma in_set_dropWhile: "x \<in> set xs \<Longrightarrow> \<not> P x \<Longrightarrow> x \<in> set (dropWhile P xs)"
  by (induction xs) auto

lemma trim_nonempty: "c \<in> set s \<Longrightarrow> \<not> is_ws c \<Longrightarrow> trim s \<noteq> []"
proof -
  assume c: "c \<in> set s" "\<not> is_ws c"
  then have "c \<in> set (rev (dropWhile is_ws s))" by (simp add: in_set_dropWhile)
  with c have "c \<in> set (dropWhile is_ws (rev (dropWhile is_ws s)))" by (intro in_set_dropWhile)
  then have "dropWhile is_ws (rev (dropWhile is_ws s)) \<noteq> []" by force
  then show ?thesis by (simp add: trim_def del: dropWhile_eq_Nil_conv)
qed

lemma space_is_ws [simp]: "is_ws CHR '' ''"
  by (simp add: is_ws_def)

lemma token_ok_trim_piece:
  "p \<in> set (js_split CHR '' '' pair) \<Longrightarrow> CHR '';'' \<notin> set pair \<Longrightarrow> token_ok (trim p)"
  using js_split_pieces[of p "CHR '' ''" pair] js_split_subset[of p "CHR '' ''" pair] set_trim[of p]
  by (auto simp: token_ok_def)

lemma clause_tokens_not_Nil [simp]: "clause_tokens pair \<noteq> []"
  by (simp add: clause_tokens_def)

lemma clause_entry_ok:
  assumes "pair \<noteq> []" "trim pair = pair" "CHR '';'' \<notin> set pair"
  shows "entry_ok (clause_entry pair)"
proof -
  define toks where "toks = js_split CHR '' '' pair"
  have toks: "toks \<noteq> []" by (simp add: toks_def)
  have ends: "\<not> is_ws (hd pair)" "\<not> is_ws (last pair)"
    using trim_ends[of pair] assms by simp_all
  then have ne: "hd pair \<noteq> CHR '' ''" "last pair \<noteq> CHR '' ''" by auto
  have h: "hd toks \<noteq> []" "hd (hd toks) = hd pair"
    using hd_js_split[OF assms(1) ne(1)] by (simp_all add: toks_def)
  have l: "last toks \<noteq> []" "last (last toks) = last pair"
    using last_js_split[OF assms(1) ne(2)] by (simp_all add: toks_def)
  have ok: "token_ok (trim p)" if "p \<in> set toks" for p
    using that assms(3) unfolding toks_def by (rule token_ok_trim_piece)
  have "hd (hd toks) \<in> set (hd toks)" "last (last toks) \<in> set (last toks)"
    using h(1) l(1) by simp_all
  note mem = this
  have 1: "trim (hd toks) \<noteq> []"
    using h ends mem by (intro trim_nonempty[of "hd (hd toks)"]) simp_all
  have 2: "token_ok (trim (hd toks))"
    using toks by (intro ok) simp
  have 3: "list_all token_ok (map trim (tl toks))"
    using ok toks by (auto simp: list_all_iff dest: list.set_sel(2))
  have 4: "trim (last toks) \<noteq> []"
    using l ends mem by (intro trim_nonempty[of "last (last toks)"]) simp_all
  have 5: "tl toks = [] \<or> last (map trim (tl toks)) \<noteq> []"
  proof (cases "tl toks = []")
    case False
    then have "last (map trim (tl toks)) = trim (last toks)"
      using toks by (simp add: last_map last_tl)
    with 4 show ?thesis by simp
  qed simp
  have 6: "tl (map trim toks) = map trim (tl toks)" by (simp add: map_tl)
  show ?thesis
    using toks 1 2 3 5
    by (simp add: entry_ok_def clause_entry_def clause_tokens_def toks_def[symmetric] hd_map 6)
qed

lemma set_js_join: "set (js_join sep ts) \<subseteq> set sep \<union> \<Union> (set ` set ts)"
  by (induction sep ts rule: js_join.induct) auto

lemma js_join_not_Nil: "ts \<noteq> [] \<Longrightarrow> last ts \<noteq> [] \<Longrightarrow> js_join sep ts \<noteq> []"
  by (induction sep ts rule: js_join.induct) auto

lemma last_js_join:
  "ts \<noteq> [] \<Longrightarrow> last ts \<noteq> [] \<Longrightarrow> last (js_join sep ts) = last (last ts)"
  by (induction sep ts rule: js_join.induct) (auto simp: js_join_not_Nil)

lemma render_no_semicolon: "entry_ok e \<Longrightarrow> CHR '';'' \<notin> set (render e)"
  using set_js_join[of "'' ''" "snd e"]
  by (auto simp: render_def entry_ok_def token_ok_def list_all_iff)

lemma render_tokens:
  assumes "entry_ok e"
  shows "trim (render e) \<noteq> [] \<and> clause_entry (trim (render e)) = e"
proof -
  obtain k vs where e: "e = (k, vs)" by (cases e)
  from assms have k: "k \<noteq> []" "token_ok k" and vs: "list_all token_ok vs"
    and l: "vs = [] \<or> last vs \<noteq> []"
    by (simp_all add: entry_ok_def e)
  from k have kt: "trim k = k" and ksp: "CHR '' '' \<notin> set k" by (simp_all add: token_ok_def)
  show ?thesis
  proof (cases "vs = []")
    case True
    have "trim (render (k, [])) = trim (k @ [CHR '' ''])" by (simp add: render_def)
    also have "\<dots> = k" by (simp add: trim_ws_snoc kt)
    finally have t: "trim (render (k, [])) = k" .
    show ?thesis
      using k kt ksp by (simp add: t clause_entry_def clause_tokens_def js_split_no_sep e True)
  next
    case False
    have r: "render (k, vs) = js_join '' '' (k # vs)"
      using False by (simp add: render_def js_join_Cons)
    have hk: "\<not> is_ws (hd k)" using trim_ends(1)[of k] k kt by simp
    from l False have lv: "last vs \<noteq> []" by simp
    from vs False have "token_ok (last vs)" by (simp add: list_all_iff)
    then have "trim (last vs) = last vs" by (simp add: token_ok_def)
    then have "\<not> is_ws (last (last vs))" using trim_ends(2)[of "last vs"] lv by simp
    moreover have "last (render (k, vs)) = last (last vs)"
      using last_js_join[of "k # vs" "'' ''"] False lv by (simp add: r)
    moreover have "hd (render (k, vs)) = hd k" using k by (simp add: render_def)
    moreover have "render (k, vs) \<noteq> []" using k by (simp add: render_def)
    ultimately have t: "trim (render (k, vs)) = render (k, vs)" using hk by (intro trim_id) simp_all
    have "js_split CHR '' '' (js_join '' '' (k # vs)) = k # vs"
      using ksp vs by (intro split_join_char) (auto simp: list_all_iff token_ok_def)
    moreover have "map trim (k # vs) = k # vs"
      using kt vs by (auto simp: list_all_iff token_ok_def intro: map_idI)
    ultimately have "clause_tokens (render (k, vs)) = k # vs"
      by (simp add: clause_tokens_def r)
    with \<open>render (k, vs) \<noteq> []\<close> show ?thesis by (simp add: t clause_entry_def e)
  qed
qed

lemma serializeCSP_render: "serializeCSP d = js_join ''; '' (map render d)"
  by (simp add: serializeCSP_def case_prod_unfold render_def[abs_def])

lemma csp_pairs_serialize:
  assumes "\<forall>e\<in>set d. entry_ok e"
  shows "csp_pairs (serializeCSP d) = map (\<lambda>e. trim (render e)) d"
proof (cases "d = []")
  case True
  then show ?thesis by (simp add: serializeCSP_render csp_pairs_def)
next
  case False
  define rs where "rs = map render d"
  have rs: "rs \<noteq> []" using False by (simp add: rs_def)
  have ns: "\<forall>r\<in>set rs. CHR '';'' \<notin> set r"
    using assms by (auto simp: rs_def render_no_semicolon)
  have "map trim (js_split CHR '';'' (js_join ''; '' rs))
      = map trim (hd rs # map (\<lambda>r. CHR '' '' # r) (tl rs))"
    by (simp only: split_join_semi[OF rs ns])
  also have "\<dots> = trim (hd rs) # map trim (tl rs)"
    by (simp add: trim_ws_Cons comp_def)
  also have "\<dots> = map trim rs" using rs by (cases rs) simp_all
  finally have "csp_pairs (serializeCSP d) = filter (\<lambda>p. p \<noteq> []) (map trim rs)"
    by (simp add: csp_pairs_def serializeCSP_render rs_def)
  also have "\<dots> = map trim rs"
    using assms by (auto simp: rs_def filter_id_conv render_tokens)
  finally show ?thesis by (simp add: rs_def comp_def)
qed

lemma deserializeCSP_entries:
  "deserializeCSP s = foldl (\<lambda>a e. obj_set (fst e) (snd e) a) [] (csp_entries s)"
proof -
  have "(case clause_tokens p of directive # values \<Rightarrow> obj_set directive values a
         | [] \<Rightarrow> obj_set ''undefined'' [] a)
        = obj_set (fst (clause_entry p)) (snd (clause_entry p)) a" for a p
    by (cases "clause_tokens p") (simp_all add: clause_entry_def)
  then show ?thesis
    by (simp add: deserializeCSP_def csp_entries_def foldl_map)
qed

lemma csp_pairs_props:
  "p \<in> set (csp_pairs s) \<Longrightarrow> p \<noteq> [] \<and> trim p = p \<and> CHR '';'' \<notin> set p"
  using js_split_pieces[of _ "CHR '';''" s] set_trim
  by (fastforce simp: csp_pairs_def)

lemma csp_entries_ok: "e \<in> set (csp_entries s) \<Longrightarrow> entry_ok e"
  using csp_pairs_props[of _ s] by (auto simp: csp_entries_def intro!: clause_entry_ok)

lemma foldl_obj_set_wf:
  "obj_wf a \<Longrightarrow> obj_wf (foldl (\<lambda>a e. obj_set (fst e) (snd e) a) a es)"
  by (induction es arbitrary: a) (simp_all add: obj_wf_obj_set)

lemma foldl_obj_set_subset:
  "set (foldl (\<lambda>a e. obj_set (fst e) (snd e) a) a es) \<subseteq> set a \<union> set es"
proof (induction es arbitrary: a)
  case Nil
  then show ?case by simp
next
  case (Cons e es)
  from Cons.IH[of "obj_set (fst e) (snd e) a"] set_obj_set[of "fst e" "snd e" a]
  show ?case by auto
qed

lemma deserializeCSP_wf: "obj_wf (deserializeCSP s)"
  by (simp add: deserializeCSP_entries foldl_obj_set_wf)

lemma deserializeCSP_entry_ok: "e \<in> set (deserializeCSP s) \<Longrightarrow> entry_ok e"
  using foldl_obj_set_subset[of "[]" "csp_entries s"] csp_entries_ok[of e s]
  by (auto simp: deserializeCSP_entries)

section \<open>The order of the keys and the values of the names\<close>

lemma keys_sorted_split:
  "sorted_wrt key_before ks \<Longrightarrow>
   ks = filter is_array_index ks @ filter (\<lambda>k. \<not> is_array_index k) ks
   \<and> sorted_wrt (\<lambda>a b. radix_value 10 a < radix_value 10 b) (filter is_array_index ks)"
proof (induction ks)
  case Nil
  then show ?case by simp
next
  case (Cons k ks)
  then have ih: "ks = filter is_array_index ks @ filter (\<lambda>k. \<not> is_array_index k) ks"
    "sorted_wrt (\<lambda>a b. radix_value 10 a < radix_value 10 b) (filter is_array_index ks)"
    and s: "\<forall>x\<in>set ks. key_before k x"
    by simp_all
  show ?case
  proof (cases "is_array_index k")
    case True
    with s have "\<forall>x\<in>set (filter is_array_index ks). radix_value 10 k < radix_value 10 x"
      by (auto simp: key_before_def)
    with True ih show ?thesis by simp
  next
    case False
    with s have "\<forall>x\<in>set ks. \<not> is_array_index x" by (auto simp: key_before_def)
    then have "filter is_array_index ks = []" "filter (\<lambda>k. \<not> is_array_index k) ks = ks"
      by (simp_all add: filter_empty_conv filter_id_conv)
    with False show ?thesis by simp
  qed
qed

lemma other_keys_obj_set:
  "filter (\<lambda>a. \<not> is_array_index a) (map fst (obj_set k v d)) =
     (if k = ''__proto__'' \<or> is_array_index k \<or> k \<in> set (map fst d)
      then filter (\<lambda>a. \<not> is_array_index a) (map fst d)
      else filter (\<lambda>a. \<not> is_array_index a) (map fst d) @ [k])"
proof (cases k v d rule: obj_set_cases)
  case proto
  then show ?thesis by simp
next
  case present
  then show ?thesis by (simp add: keys_update_present del: set_map)
next
  case index
  then show ?thesis by (simp add: keys_insert_index_filter del: set_map)
next
  case other
  then show ?thesis by simp
qed

lemma set_first_occs [simp]: "set (first_occs xs) = set xs"
  by (induction xs rule: first_occs.induct) auto

lemma distinct_first_occs [simp]: "distinct (first_occs xs)"
  by (induction xs rule: first_occs.induct) auto

lemma first_occs_accumulate:
  "distinct acc \<Longrightarrow>
   foldl (\<lambda>acc x. if x \<in> set acc then acc else acc @ [x]) acc xs
     = acc @ first_occs (filter (\<lambda>x. x \<notin> set acc) xs)"
proof (induction xs arbitrary: acc)
  case Nil
  then show ?case by simp
next
  case (Cons x xs)
  show ?case
  proof (cases "x \<in> set acc")
    case True
    with Cons show ?thesis by simp
  next
    case False
    have "filter (\<lambda>y. y \<noteq> x) (filter (\<lambda>y. y \<notin> set acc) xs) = filter (\<lambda>y. y \<notin> set (acc @ [x])) xs"
      by (auto intro: filter_cong)
    with False Cons.IH[of "acc @ [x]"] Cons.prems show ?thesis by simp
  qed
qed

lemma foldl_other_keys:
  assumes "''__proto__'' \<notin> set (map fst es)"
  shows "filter (\<lambda>a. \<not> is_array_index a) (map fst (foldl (\<lambda>a e. obj_set (fst e) (snd e) a) d es))
       = foldl (\<lambda>acc x. if x \<in> set acc then acc else acc @ [x])
           (filter (\<lambda>a. \<not> is_array_index a) (map fst d))
           (filter (\<lambda>a. \<not> is_array_index a) (map fst es))"
  using assms
proof (induction es arbitrary: d)
  case Nil
  then show ?case by simp
next
  case (Cons e es)
  from Cons.prems have p: "fst e \<noteq> ''__proto__''" "''__proto__'' \<notin> set (map fst es)" by auto
  show ?case
    using Cons.IH[OF p(2), of "obj_set (fst e) (snd e) d"] p(1)
    by (simp add: other_keys_obj_set del: set_map)
qed

lemma foldl_keys_set:
  assumes "''__proto__'' \<notin> set (map fst es)"
  shows "set (map fst (foldl (\<lambda>a e. obj_set (fst e) (snd e) a) d es))
       = set (map fst d) \<union> set (map fst es)"
  using assms
proof (induction es arbitrary: d)
  case Nil
  then show ?case by simp
next
  case (Cons e es)
  from Cons.prems have p: "fst e \<noteq> ''__proto__''" "''__proto__'' \<notin> set (map fst es)" by auto
  show ?case
    using Cons.IH[OF p(2), of "obj_set (fst e) (snd e) d"] p(1) keys_obj_set[of "fst e" "snd e" d]
    by auto
qed

lemma foldl_map_of:
  assumes "''__proto__'' \<notin> set (map fst es)"
  shows "map_of (foldl (\<lambda>a e. obj_set (fst e) (snd e) a) d es) = map_of d ++ map_of (rev es)"
  using assms
proof (induction es arbitrary: d)
  case Nil
  then show ?case by simp
next
  case (Cons e es)
  from Cons.prems have p: "fst e \<noteq> ''__proto__''" "''__proto__'' \<notin> set (map fst es)" by auto
  have "map_of (obj_set (fst e) (snd e) d) = map_of d ++ map_of [e]"
    using p(1) by (simp add: map_of_obj_set)
  then show ?case
    using Cons.IH[OF p(2), of "obj_set (fst e) (snd e) d"]
    by (simp del: map_of.simps add: map_of_append)
qed

lemma parse_keys:
  assumes "''__proto__'' \<notin> set (map fst (csp_entries s))"
  shows "Object_keys (deserializeCSP s)
       = filter is_array_index (Object_keys (deserializeCSP s))
         @ first_occs (filter (\<lambda>k. \<not> is_array_index k) (map fst (csp_entries s)))"
proof -
  have "sorted_wrt key_before (Object_keys (deserializeCSP s))"
    using deserializeCSP_wf[of s] by (simp add: obj_wf_def Object_keys_def)
  from keys_sorted_split[OF this]
  have "Object_keys (deserializeCSP s)
       = filter is_array_index (Object_keys (deserializeCSP s))
         @ filter (\<lambda>k. \<not> is_array_index k) (Object_keys (deserializeCSP s))"
    by simp
  moreover have "filter (\<lambda>k. \<not> is_array_index k) (Object_keys (deserializeCSP s))
       = first_occs (filter (\<lambda>k. \<not> is_array_index k) (map fst (csp_entries s)))"
    using foldl_other_keys[OF assms, of "[]"] first_occs_accumulate[of "[]"]
    by (simp add: deserializeCSP_entries Object_keys_def)
  ultimately show ?thesis by simp
qed

section \<open>Reading the answer at the menu\<close>

lemma show_nat_not_Nil [simp]: "show_nat n \<noteq> []"
  by (subst show_nat.simps) simp

lemma decimal_digit_char_of: "d < 10 \<Longrightarrow> is_radix_digit 10 (char_of (48 + d :: nat))"
proof -
  assume d: "d < 10"
  have "(of_char (char_of (48 + d)) :: int) = int (of_char (char_of (48 + d)))"
    by (simp only: of_nat_of_char)
  also have "\<dots> = int (48 + d)" using d by simp
  finally show ?thesis using d by (simp add: is_decimal_digit_iff)
qed

lemma digit_of_char_of: "d < 10 \<Longrightarrow> digit_of (char_of (48 + d :: nat)) = int d"
proof -
  assume d: "d < 10"
  have "(of_char (char_of (48 + d)) :: int) = int (of_char (char_of (48 + d)))"
    by (simp only: of_nat_of_char)
  also have "\<dots> = int (48 + d)" using d by simp
  finally show ?thesis using d decimal_digit_char_of[OF d] by (simp add: digit_of_decimal)
qed

lemma show_nat_digits: "list_all (is_radix_digit 10) (show_nat n)"
proof (induction n rule: show_nat.induct)
  case (1 n)
  show ?case
  proof (cases "n < 10")
    case True
    then show ?thesis by (subst show_nat.simps) (simp add: decimal_digit_char_of)
  next
    case False
    with 1 show ?thesis by (subst show_nat.simps) (simp add: decimal_digit_char_of)
  qed
qed

lemma radix_value_show_nat: "radix_value 10 (show_nat n) = int n"
proof (induction n rule: show_nat.induct)
  case (1 n)
  show ?case
  proof (cases "n < 10")
    case True
    then show ?thesis by (subst show_nat.simps) (simp add: digit_of_char_of)
  next
    case False
    with 1 have "radix_value 10 (show_nat (n div 10)) = int (n div 10)" by simp
    moreover have "10 * int (n div 10) + int (n mod 10) = int n" by presburger
    ultimately show ?thesis using False
      by (subst show_nat.simps) (simp add: radix_value_snoc digit_of_char_of)
  qed
qed

lemma decimal_digit_plain:
  assumes "is_radix_digit 10 c"
  shows "\<not> is_ws c" "c \<noteq> CHR ''-''" "c \<noteq> CHR ''+''" "c \<noteq> CHR ''x''" "c \<noteq> CHR ''X''"
    "upper_char c = c" "c \<noteq> CHR ''P''" "c \<noteq> CHR ''A''" "c \<noteq> CHR ''Q''"
  using assms by (auto simp: is_decimal_digit_iff is_ws_def upper_char_def)

lemma parseInt_digits:
  assumes "s \<noteq> []" "list_all (is_radix_digit 10) s"
  shows "parseInt s = Some (radix_value 10 s)"
proof -
  obtain c cs where s: "s = c # cs" using assms(1) by (cases s) auto
  from assms(2) have c: "is_radix_digit 10 c" by (simp add: s)
  have 1: "dropWhile is_ws s = s" using decimal_digit_plain(1)[OF c] by (simp add: s)
  have 2: "\<not> (2 \<le> length s \<and> (take 2 s = ''0x'' \<or> take 2 s = ''0X''))"
  proof (cases cs)
    case Nil
    then show ?thesis by (simp add: s)
  next
    case (Cons c' cs')
    with assms(2) have "is_radix_digit 10 c'" by (simp add: s)
    from decimal_digit_plain(4,5)[OF this] show ?thesis by (simp add: s Cons)
  qed
  have 3: "takeWhile (is_radix_digit 10) s = s"
    using assms(2) by (simp add: takeWhile_eq_all_conv list_all_iff)
  have 4: "hd s \<noteq> CHR ''-''" "hd s \<noteq> CHR ''+''"
    using decimal_digit_plain(2,3)[OF c] by (simp_all add: s)
  have 5: "(2 \<le> length s \<and> (take 2 s = ''0x'' \<or> take 2 s = ''0X'')) = False"
    using 2 by blast
  have 6: "(s \<noteq> [] \<and> hd s = CHR ''-'') = False"
    "(s \<noteq> [] \<and> (hd s = CHR ''+'' \<or> hd s = CHR ''-'')) = False"
    using 4 by simp_all
  have "parseInt s = (if s = [] then None else Some (1 * radix_value 10 s))"
    unfolding parseInt_def Let_def 1 6 5 if_False 3 ..
  with assms(1) show ?thesis by simp
qed

lemma parseInt_show_nat: "parseInt (show_nat n) = Some (int n)"
  by (simp add: parseInt_digits show_nat_digits radix_value_show_nat)

lemma toUpperCase_digits:
  "list_all (is_radix_digit 10) s \<Longrightarrow> toUpperCase s = s"
  by (induction s) (simp_all add: toUpperCase_def decimal_digit_plain(6))

lemma digits_no_command:
  assumes "s \<noteq> []" "list_all (is_radix_digit 10) s"
  shows "toUpperCase s \<noteq> ''P''" "toUpperCase s \<noteq> ''A''" "toUpperCase s \<noteq> ''Q''"
proof -
  obtain c cs where s: "s = c # cs" using assms(1) by (cases s) auto
  from assms(2) have c: "is_radix_digit 10 c" by (simp add: s)
  from decimal_digit_plain(7,8,9)[OF c]
  show "toUpperCase s \<noteq> ''P''" "toUpperCase s \<noteq> ''A''" "toUpperCase s \<noteq> ''Q''"
    using assms(2) by (auto simp: toUpperCase_digits s)
qed

lemma session_simps [simp]:
  "st (editCSP d evs) = MENU" "dirs (editCSP d evs) = d"
  "st (addDirective d evs) = ADD_NAME" "dirs (addDirective d evs) = d"
  "st (invalid_selection s) = MENU" "dirs (invalid_selection s) = dirs s"
  by (simp_all add: editCSP_def addDirective_def invalid_selection_def)

lemma on_answer_other:
  assumes "toUpperCase answer \<noteq> ''P''" "toUpperCase answer \<noteq> ''A''" "toUpperCase answer \<noteq> ''Q''"
  shows "parseInt answer = None \<Longrightarrow> on_answer answer s = invalid_selection s"
    and "parseInt answer = Some n \<Longrightarrow> \<not> (1 \<le> n \<and> n \<le> int (length (dirs s))) \<Longrightarrow>
         on_answer answer s = invalid_selection s"
    and "parseInt answer = Some n \<Longrightarrow> 1 \<le> n \<Longrightarrow> n \<le> int (length (dirs s)) \<Longrightarrow>
         st (on_answer answer s) = EDIT_VALUE (Object_keys (dirs s) ! nat (n - 1))
         \<and> dirs (on_answer answer s) = dirs s"
proof -
  show "parseInt answer = None \<Longrightarrow> on_answer answer s = invalid_selection s"
    using assms by (simp add: on_answer_def)
  show "parseInt answer = Some n \<Longrightarrow> \<not> (1 \<le> n \<and> n \<le> int (length (dirs s))) \<Longrightarrow>
         on_answer answer s = invalid_selection s"
    using assms by (auto simp: on_answer_def Let_def Object_keys_def)
  assume n: "parseInt answer = Some n" "1 \<le> n" "n \<le> int (length (dirs s))"
  then have i: "nat (n - 1) < length (dirs s)" by auto
  then have "dirs s ! nat (n - 1) \<in> set (dirs s)" by (rule nth_mem)
  then have "fst (dirs s ! nat (n - 1)) \<in> fst ` set (dirs s)" by (rule imageI)
  then have "map_of (dirs s) (fst (dirs s ! nat (n - 1))) \<noteq> None"
    by (simp only: map_of_eq_None_iff not_not)
  then obtain vs where vs: "map_of (dirs s) (Object_keys (dirs s) ! nat (n - 1)) = Some vs"
    using i by (auto simp: Object_keys_def)
  show "st (on_answer answer s) = EDIT_VALUE (Object_keys (dirs s) ! nat (n - 1))
         \<and> dirs (on_answer answer s) = dirs s"
    using assms n vs by (simp add: on_answer_def Let_def Object_keys_def)
qed

lemma on_answer_command:
  "toUpperCase answer = ''P'' \<Longrightarrow>
     st (on_answer answer s) = TERMINATED \<and> dirs (on_answer answer s) = dirs s"
  "toUpperCase answer = ''A'' \<Longrightarrow> on_answer answer s = addDirective (dirs s) (out s)"
  "toUpperCase answer = ''Q'' \<Longrightarrow>
     st (on_answer answer s) = TERMINATED \<and> dirs (on_answer answer s) = dirs s"
  by (simp_all add: on_answer_def Let_def)

lemma on_answer_cases [case_names P A Q invalid select]:
  obtains "st (on_answer answer s) = TERMINATED" "toUpperCase answer = ''P''"
  | "on_answer answer s = addDirective (dirs s) (out s)"
  | "st (on_answer answer s) = TERMINATED" "toUpperCase answer = ''Q''"
  | "on_answer answer s = invalid_selection s"
  | n where "parseInt answer = Some n" "1 \<le> n" "n \<le> int (length (dirs s))"
      "st (on_answer answer s) = EDIT_VALUE (Object_keys (dirs s) ! nat (n - 1))"
proof (cases "toUpperCase answer = ''P'' \<or> toUpperCase answer = ''A'' \<or> toUpperCase answer = ''Q''")
  case True
  then show ?thesis using on_answer_command that(1,2,3) by blast
next
  case False
  then have c: "toUpperCase answer \<noteq> ''P''" "toUpperCase answer \<noteq> ''A''"
    "toUpperCase answer \<noteq> ''Q''" by simp_all
  show ?thesis
  proof (cases "parseInt answer")
    case None
    with on_answer_other(1)[OF c] that(4) show ?thesis by blast
  next
    case (Some n)
    show ?thesis
    proof (cases "1 \<le> n \<and> n \<le> int (length (dirs s))")
      case True
      with on_answer_other(3)[OF c Some] that(5) Some show ?thesis by blast
    next
      case False
      with on_answer_other(2)[OF c Some] that(4) show ?thesis by blast
    qed
  qed
qed

lemma on_answer_dirs [simp]: "dirs (on_answer answer s) = dirs s"
proof (cases "toUpperCase answer = ''P'' \<or> toUpperCase answer = ''A'' \<or> toUpperCase answer = ''Q''")
  case True
  then show ?thesis using on_answer_command by auto
next
  case False
  then have c: "toUpperCase answer \<noteq> ''P''" "toUpperCase answer \<noteq> ''A''"
    "toUpperCase answer \<noteq> ''Q''" by simp_all
  show ?thesis
    using on_answer_other[OF c]
    by (cases "parseInt answer"; cases "1 \<le> the (parseInt answer) \<and> the (parseInt answer) \<le> int (length (dirs s))") auto
qed

lemma on_answer_EDIT_VALUE:
  "st (on_answer answer s) = EDIT_VALUE k \<Longrightarrow> k \<in> set (Object_keys (dirs s))"
proof (cases rule: on_answer_cases[where answer=answer and s=s])
  case (select n)
  assume "st (on_answer answer s) = EDIT_VALUE k"
  with select have "k = Object_keys (dirs s) ! nat (n - 1)" by simp
  moreover from select have "nat (n - 1) < length (Object_keys (dirs s))"
    by (auto simp: Object_keys_def)
  ultimately show ?thesis by simp
qed auto

lemma split_ws_only_spaces:
  "\<forall>c\<in>set line. is_ws c \<longrightarrow> c = CHR '' '' \<Longrightarrow> split_ws line = js_split CHR '' '' line"
proof (induction line)
  case Nil
  then show ?case by simp
next
  case (Cons c cs)
  then have ih: "split_ws cs = js_split CHR '' '' cs" by simp
  from Cons.prems have "is_ws c \<longleftrightarrow> c = CHR '' ''" by auto
  then show ?case by (simp add: ih)
qed

lemma spec_tokens_only_spaces:
  "\<forall>c\<in>set line. is_ws c \<longrightarrow> c = CHR '' '' \<Longrightarrow> space_tokens line = spec_tokens line"
  by (simp add: space_tokens_def spec_tokens_def split_ws_only_spaces)

lemma space_tokens_props:
  "t \<in> set (space_tokens line) \<Longrightarrow> t \<noteq> [] \<and> CHR '' '' \<notin> set t \<and> set t \<subseteq> set line"
  using js_split_pieces[of t "CHR '' ''" line] js_split_subset[of t "CHR '' ''" line]
  by (auto simp: space_tokens_def)

lemma js_split_all_empty:
  "(\<forall>p\<in>set (js_split sep s). p = []) \<longleftrightarrow> (\<forall>c\<in>set s. c = sep)"
  by (induction s) (auto split: list.splits)

lemma space_tokens_Nil_iff: "space_tokens line = [] \<longleftrightarrow> (\<forall>c\<in>set line. c = CHR '' '')"
  by (simp add: space_tokens_def filter_empty_conv js_split_all_empty)

lemma update_as_map:
  "distinct (map fst d) \<Longrightarrow> k \<in> set (map fst d) \<Longrightarrow>
   AList.update k v d = map (\<lambda>e. if fst e = k then (k, v) else e) d"
proof (induction d)
  case Nil
  then show ?case by simp
next
  case (Cons e d)
  show ?case
  proof (cases "fst e = k")
    case True
    with Cons.prems have "k \<notin> fst ` set d" by simp
    then have "\<forall>x\<in>set d. fst x \<noteq> k" by (auto intro: rev_image_eqI)
    then have "map (\<lambda>e. if fst e = k then (k, v) else e) d = d"
      by (intro map_idI) auto
    with True show ?thesis by simp
  next
    case False
    with Cons show ?thesis by auto
  qed
qed

section \<open>Invariants of a session\<close>

lemma step_simps:
  "st s = MENU \<Longrightarrow> step s line = on_answer line s"
  "st s = EDIT_VALUE k \<Longrightarrow> step s line = on_newValue k line s"
  "st s = ADD_NAME \<Longrightarrow> step s line = on_newDirective line s"
  "st s = TERMINATED \<Longrightarrow> step s line = s"
  "st s = CRASHED \<Longrightarrow> step s line = s"
  by (simp_all add: step_def)

lemma on_newValue_simps [simp]:
  "st (on_newValue k line s) = MENU"
  "dirs (on_newValue k line s) = obj_set k (space_tokens line) (dirs s)"
  by (simp_all add: on_newValue_def)

lemma on_newDirective_Nil:
  "space_tokens line = [] \<Longrightarrow>
   on_newDirective line s
     = addDirective (dirs s) (out s @ [Log ''Invalid directive. Please try again.''])"
  by (simp add: on_newDirective_def)

lemma on_newDirective_Cons:
  "space_tokens line = k # vs \<Longrightarrow>
   on_newDirective line s = editCSP (obj_set k vs (dirs s)) (out s)"
  by (simp add: on_newDirective_def)

lemma session_ok_editCSP: "obj_wf d \<Longrightarrow> session_ok (editCSP d evs)"
  by (simp add: session_ok_def)

lemma session_ok_addDirective: "obj_wf d \<Longrightarrow> session_ok (addDirective d evs)"
  by (simp add: session_ok_def)

lemma session_ok_step: "session_ok s \<Longrightarrow> session_ok (step s line)"
proof (cases "st s")
  case MENU
  assume ok: "session_ok s"
  then have wf: "obj_wf (dirs s)" by (simp add: session_ok_def)
  have "session_ok (on_answer line s)"
  proof (cases "st (on_answer line s)")
    case (EDIT_VALUE k)
    then have "k \<in> set (Object_keys (dirs s))" by (rule on_answer_EDIT_VALUE)
    with wf EDIT_VALUE show ?thesis by (simp add: session_ok_def)
  qed (simp_all add: session_ok_def wf)
  with MENU show ?thesis by (simp add: step_simps)
next
  case (EDIT_VALUE k)
  assume "session_ok s"
  then have "obj_wf (dirs s)" by (simp add: session_ok_def)
  then show ?thesis
    by (simp add: step_simps(2)[OF EDIT_VALUE] session_ok_def obj_wf_obj_set)
next
  case ADD_NAME
  assume "session_ok s"
  then have wf: "obj_wf (dirs s)" by (simp add: session_ok_def)
  show ?thesis
  proof (cases "space_tokens line")
    case Nil
    with wf ADD_NAME show ?thesis
      by (simp add: step_simps on_newDirective_Nil session_ok_addDirective)
  next
    case (Cons k vs)
    with wf ADD_NAME show ?thesis
      by (simp add: step_simps on_newDirective_Cons session_ok_editCSP obj_wf_obj_set)
  qed
next
  case TERMINATED
  assume "session_ok s"
  with TERMINATED show ?thesis by (simp add: step_simps)
next
  case CRASHED
  assume "session_ok s"
  with CRASHED show ?thesis by (simp add: step_simps)
qed

lemma step_not_CRASHED: "st s \<noteq> CRASHED \<Longrightarrow> st (step s line) \<noteq> CRASHED"
proof (cases "st s")
  case MENU
  have "st (on_answer line s) \<noteq> CRASHED"
    by (cases rule: on_answer_cases[where answer = line and s = s]) simp_all
  with MENU show ?thesis by (simp add: step_simps)
next
  case (EDIT_VALUE k)
  then show ?thesis by (simp add: step_simps(2)[OF EDIT_VALUE])
next
  case ADD_NAME
  then show ?thesis
    by (cases "space_tokens line") (simp_all add: step_simps on_newDirective_Nil on_newDirective_Cons)
next
  case TERMINATED
  then show ?thesis by (simp add: step_simps)
next
  case CRASHED
  assume "st s \<noteq> CRASHED"
  with CRASHED show ?thesis by simp
qed

lemma run_not_CRASHED: "st s \<noteq> CRASHED \<Longrightarrow> st (run s inputs) \<noteq> CRASHED"
  unfolding run_def by (induction inputs arbitrary: s) (simp_all add: step_not_CRASHED)

lemma start_not_CRASHED: "st (run (start arg r) inputs) \<noteq> CRASHED"
proof -
  have "st (start arg r) \<noteq> CRASHED"
    by (auto simp: start_def split: option.splits prod.splits)
  then show ?thesis by (rule run_not_CRASHED)
qed

lemma session_ok_run: "session_ok s \<Longrightarrow> session_ok (run s inputs)"
  unfolding run_def by (induction inputs arbitrary: s) (simp_all add: session_ok_step)

lemma getCSP_wf: "obj_wf (fst (getCSP url r))"
  by (auto simp: getCSP_def deserializeCSP_wf split: fetched.splits option.splits)

lemma session_ok_start: "session_ok (start arg r)"
proof (cases "\<exists>url. arg = Some url \<and> url \<noteq> []")
  case True
  then obtain url where u: "arg = Some url" "url \<noteq> []" by blast
  obtain d evs where g: "getCSP url r = (d, evs)" by (cases "getCSP url r")
  with getCSP_wf[of url r] have "obj_wf d" by simp
  with u g show ?thesis by (simp add: start_def session_ok_editCSP)
next
  case False
  then show ?thesis by (auto simp: start_def session_ok_def split: option.splits)
qed

lemma no_separator_obj_set:
  "no_separator d \<Longrightarrow> CHR '';'' \<notin> set k \<Longrightarrow> \<forall>v\<in>set vs. CHR '';'' \<notin> set v \<Longrightarrow>
   no_separator (obj_set k vs d)"
  using set_obj_set[of k vs d] by (fastforce simp: no_separator_def list_all_iff)

lemma no_separator_key:
  "no_separator d \<Longrightarrow> k \<in> set (Object_keys d) \<Longrightarrow> CHR '';'' \<notin> set k"
  by (auto simp: no_separator_def list_all_iff Object_keys_def)

lemma no_separator_deserializeCSP: "no_separator (deserializeCSP s)"
  using deserializeCSP_entry_ok[of _ s]
  by (auto simp: no_separator_def list_all_iff entry_ok_def token_ok_def)

lemma no_separator_step:
  assumes "session_ok s" "no_separator (dirs s)" "CHR '';'' \<notin> set line"
  shows "no_separator (dirs (step s line))"
proof -
  have toks: "\<forall>t\<in>set (space_tokens line). CHR '';'' \<notin> set t"
    using space_tokens_props[of _ line] assms(3) by blast
  show ?thesis
  proof (cases "st s")
    case MENU
    with assms(2) show ?thesis by (simp add: step_simps)
  next
    case (EDIT_VALUE k)
    with assms(1) have "k \<in> set (Object_keys (dirs s))" by (simp add: session_ok_def)
    with assms(2) have "CHR '';'' \<notin> set k" by (rule no_separator_key)
    with assms(2) toks show ?thesis
      by (simp add: step_simps(2)[OF EDIT_VALUE] no_separator_obj_set)
  next
    case ADD_NAME
    show ?thesis
    proof (cases "space_tokens line")
      case Nil
      with ADD_NAME assms(2) show ?thesis by (simp add: step_simps on_newDirective_Nil)
    next
      case (Cons k vs)
      with toks have "CHR '';'' \<notin> set k" "\<forall>v\<in>set vs. CHR '';'' \<notin> set v" by simp_all
      with ADD_NAME assms(2) Cons show ?thesis
        by (simp add: step_simps on_newDirective_Cons no_separator_obj_set)
    qed
  next
    case TERMINATED
    with assms(2) show ?thesis by (simp add: step_simps)
  next
    case CRASHED
    with assms(2) show ?thesis by (simp add: step_simps)
  qed
qed

lemma no_separator_run:
  "session_ok s \<Longrightarrow> no_separator (dirs s) \<Longrightarrow> \<forall>line\<in>set inputs. CHR '';'' \<notin> set line \<Longrightarrow>
   no_separator (dirs (run s inputs))"
  unfolding run_def
  by (induction inputs arbitrary: s) (simp_all add: session_ok_step no_separator_step)

lemma no_separator_start: "no_separator (dirs (start arg r))"
proof (cases "\<exists>url. arg = Some url \<and> url \<noteq> []")
  case True
  then obtain url where u: "arg = Some url" "url \<noteq> []" by blast
  have "no_separator []" by (simp add: no_separator_def)
  then have "no_separator (fst (getCSP url r))"
    by (auto simp: getCSP_def no_separator_deserializeCSP split: fetched.splits option.splits)
  with u show ?thesis by (auto simp: start_def split: prod.splits)
next
  case False
  then show ?thesis by (auto simp: start_def no_separator_def split: option.splits)
qed

lemmas parser_eval =
  deserializeCSP_def csp_pairs_def csp_entries_def clause_entry_def clause_tokens_def
  trim_def is_ws_def obj_set_def is_array_index_def is_radix_digit_def digit_value_def
  digit_of_def radix_value_def Object_keys_def

section \<open>The parser and the serializer\<close>

text \<open>
  C1. Round trip: parsing what the serializer writes for a directive set that the parser
  produced gives that directive set again. It holds for every policy string, well formed
  or not.
\<close>

theorem roundtrip: "deserializeCSP (serializeCSP (deserializeCSP s)) = deserializeCSP s"
proof -
  have shape: "obj_wf (deserializeCSP s)"
    by (rule deserializeCSP_wf)
  have tokens: "\<forall>e\<in>set (deserializeCSP s). entry_ok e"
    by (simp add: deserializeCSP_entry_ok)
  have "csp_entries (serializeCSP (deserializeCSP s))
      = map (\<lambda>e. clause_entry (trim (render e))) (deserializeCSP s)"
    by (simp add: csp_entries_def csp_pairs_serialize[OF tokens] comp_def)
  also have "\<dots> = deserializeCSP s"
    using tokens by (intro map_idI) (simp add: render_tokens)
  finally have "deserializeCSP (serializeCSP (deserializeCSP s))
      = foldl (\<lambda>a e. obj_set (fst e) (snd e) a) [] (deserializeCSP s)"
    by (simp add: deserializeCSP_entries)
  also have "\<dots> = deserializeCSP s"
    using shape by (rule rebuild)
  finally show ?thesis .
qed

text \<open>
  C2 (as amended). In a policy with no clause named \<open>__proto__\<close>, the names of the directive
  set are distinct and are the names of the clauses; the names that are array indices come
  first, in ascending numeric order, and the other names follow in the order of their first
  occurrence; every name has the values of its last clause. \<open>a 1; b 2; a 3\<close> gives \<open>a\<close>
  with \<open>3\<close>, then \<open>b\<close> with \<open>2\<close>. When the editor adds a directive whose name is already
  a key, the keys and their order stay and the name takes the new values.
\<close>

theorem parse_order_and_values:
  assumes "''__proto__'' \<notin> set (map fst (csp_entries s))"
    and "obj_wf d" and "space_tokens line = k # vs" and "k \<in> set (Object_keys d)"
  shows "distinct (Object_keys (deserializeCSP s))
    \<and> set (Object_keys (deserializeCSP s)) = set (map fst (csp_entries s))
    \<and> Object_keys (deserializeCSP s)
        = filter is_array_index (Object_keys (deserializeCSP s))
          @ first_occs (filter (\<lambda>k. \<not> is_array_index k) (map fst (csp_entries s)))
    \<and> sorted_wrt (\<lambda>a b. radix_value 10 a < radix_value 10 b)
         (filter is_array_index (Object_keys (deserializeCSP s)))
    \<and> map_of (deserializeCSP s) = map_of (rev (csp_entries s))
    \<and> deserializeCSP ''a 1; b 2; a 3'' = [(''a'', [''3'']), (''b'', [''2''])]
    \<and> Object_keys (dirs (step \<lparr>st = ADD_NAME, dirs = d, out = evs\<rparr> line)) = Object_keys d
    \<and> map_of (dirs (step \<lparr>st = ADD_NAME, dirs = d, out = evs\<rparr> line)) = (map_of d)(k \<mapsto> vs)"
proof -
  have wf: "obj_wf (deserializeCSP s)" by (rule deserializeCSP_wf)
  then have 1: "distinct (Object_keys (deserializeCSP s))"
    by (simp add: obj_wf_def Object_keys_def)
  have 2: "set (Object_keys (deserializeCSP s)) = set (map fst (csp_entries s))"
    using foldl_keys_set[OF assms(1), of "[]"] by (simp add: deserializeCSP_entries Object_keys_def)
  have 3: "Object_keys (deserializeCSP s)
        = filter is_array_index (Object_keys (deserializeCSP s))
          @ first_occs (filter (\<lambda>k. \<not> is_array_index k) (map fst (csp_entries s)))"
    using assms(1) by (rule parse_keys)
  have "sorted_wrt key_before (Object_keys (deserializeCSP s))"
    using wf by (simp add: obj_wf_def Object_keys_def)
  then have 4: "sorted_wrt (\<lambda>a b. radix_value 10 a < radix_value 10 b)
         (filter is_array_index (Object_keys (deserializeCSP s)))"
    by (simp add: keys_sorted_split)
  have 5: "map_of (deserializeCSP s) = map_of (rev (csp_entries s))"
    using foldl_map_of[OF assms(1), of "[]"] by (simp add: deserializeCSP_entries)
  have 6: "deserializeCSP ''a 1; b 2; a 3'' = [(''a'', [''3'']), (''b'', [''2''])]"
    by (simp add: parser_eval)
  from assms(2,4) have kp: "k \<noteq> ''__proto__''" by (auto simp add: obj_wf_def Object_keys_def simp del: set_map)
  have d: "dirs (step \<lparr>st = ADD_NAME, dirs = d, out = evs\<rparr> line) = obj_set k vs d"
    using assms(3) by (simp add: step_simps on_newDirective_Cons)
  have 7: "Object_keys (obj_set k vs d) = Object_keys d"
    using assms(4) kp by (simp add: obj_set_def Object_keys_def keys_update_present del: set_map)
  have 8: "map_of (obj_set k vs d) = (map_of d)(k \<mapsto> vs)"
    using kp by (simp add: map_of_obj_set)
  show ?thesis
    using 1 2 3 4 5 6 7 8 unfolding d by blast
qed

theorem parse_order_and_values_witness:
  "''__proto__'' \<notin> set (map fst (csp_entries ''b 1; 10 2; b 3; 9 4''))
   \<and> obj_wf [(''a'', [''3'']), (''b'', [''2''])]
   \<and> space_tokens ''a 9 8'' = [''a'', ''9'', ''8'']
   \<and> Object_keys (deserializeCSP ''b 1; 10 2; b 3; 9 4'') = [''9'', ''10'', ''b'']
   \<and> map_of (deserializeCSP ''b 1; 10 2; b 3; 9 4'') ''b'' = Some [''3'']
   \<and> Object_keys (dirs (step \<lparr>st = ADD_NAME, dirs = [(''a'', [''3'']), (''b'', [''2''])], out = []\<rparr>
        ''a 9 8'')) = [''a'', ''b'']
   \<and> map_of (dirs (step \<lparr>st = ADD_NAME, dirs = [(''a'', [''3'']), (''b'', [''2''])], out = []\<rparr>
        ''a 9 8'')) ''a'' = Some [''9'', ''8'']"
proof -
  have e: "csp_entries ''b 1; 10 2; b 3; 9 4''
      = [(''b'', [''1'']), (''10'', [''2'']), (''b'', [''3'']), (''9'', [''4''])]"
    by (simp add: parser_eval)
  have h1: "''__proto__'' \<notin> set (map fst (csp_entries ''b 1; 10 2; b 3; 9 4''))"
    by (simp add: e)
  have h2: "obj_wf [(''a'', [''3'']), (''b'', [''2''])]"
    by (simp add: obj_wf_def key_before_def parser_eval)
  have h3: "space_tokens ''a 9 8'' = [''a'', ''9'', ''8'']"
    by (simp add: space_tokens_def)
  have h4: "''a'' \<in> set (Object_keys [(''a'', [''3'']), (''b'', [''2''])])"
    by (simp add: Object_keys_def)
  note t = parse_order_and_values[OF h1 h2 h3 h4, of "[]"]
  from t have m: "map_of (deserializeCSP ''b 1; 10 2; b 3; 9 4'') ''b'' = Some [''3'']"
    by (simp add: e)
  have "deserializeCSP ''b 1; 10 2; b 3; 9 4'' = [(''9'', [''4'']), (''10'', [''2'']), (''b'', [''3''])]"
    by (simp add: parser_eval)
  with t have k: "Object_keys (deserializeCSP ''b 1; 10 2; b 3; 9 4'') = [''9'', ''10'', ''b'']"
    by (simp add: Object_keys_def)
  from t have k': "Object_keys (dirs (step \<lparr>st = ADD_NAME, dirs = [(''a'', [''3'']), (''b'', [''2''])], out = []\<rparr>
        ''a 9 8'')) = [''a'', ''b'']"
    by (simp add: Object_keys_def)
  from t have m': "map_of (dirs (step \<lparr>st = ADD_NAME, dirs = [(''a'', [''3'']), (''b'', [''2''])], out = []\<rparr>
        ''a 9 8'')) ''a'' = Some [''9'', ''8'']"
    by simp
  show ?thesis using h1 h2 h3 k m k' m' by blast
qed

text \<open>
  The claim as it was stated fails: a name that is an array index is enumerated before
  the names that are not, whatever the order of the clauses; and a clause named
  \<open>__proto__\<close> leaves no entry.
\<close>

theorem insertion_order_counterexample:
  "Object_keys (deserializeCSP ''b 1; 1 2'') = [''1'', ''b'']
   \<and> first_occs (map fst (csp_entries ''b 1; 1 2'')) = [''b'', ''1'']
   \<and> Object_keys (deserializeCSP ''b 1; 1 2'') \<noteq> first_occs (map fst (csp_entries ''b 1; 1 2''))
   \<and> deserializeCSP ''__proto__ x; a y'' = [(''a'', [''y''])]"
  by (simp add: parser_eval)

text \<open>
  C3 (as amended). Take a clause that remains after the split at \<open>;\<close> and the trimming
  and that consists of tokens separated by exactly one space (U+0020) each, a token being
  a run of characters with no space in it that is not all white space. The parser gives
  the first token as the name and the other tokens as the values, in their order, each
  token with the white space at its two ends trimmed off, and none of them is empty. White
  space other than the space is not a separator: inside a token it stays.
\<close>

theorem clause_tokenization:
  assumes "js_join '' '' ts \<in> set (csp_pairs s)"
    and "\<forall>t\<in>set ts. CHR '' '' \<notin> set t \<and> (\<exists>c\<in>set t. \<not> is_ws c)"
  shows "clause_tokens (js_join '' '' ts) = map trim ts
    \<and> clause_entry (js_join '' '' ts) = (trim (hd ts), map trim (tl ts))
    \<and> [] \<notin> set (clause_tokens (js_join '' '' ts))
    \<and> (trim (hd ts) \<noteq> ''__proto__'' \<longrightarrow>
         deserializeCSP (js_join '' '' ts) = [(trim (hd ts), map trim (tl ts))])"
proof -
  define p where "p = js_join '' '' ts"
  from assms(1) have pp: "p \<noteq> []" "trim p = p" "CHR '';'' \<notin> set p"
    using csp_pairs_props[of p s] by (simp_all add: p_def)
  have ts: "ts \<noteq> []" using pp(1) by (auto simp: p_def)
  have "\<forall>t\<in>set ts. CHR '' '' \<notin> set t" using assms(2) by blast
  with ts have sp: "js_split CHR '' '' p = ts"
    unfolding p_def by (rule split_join_char)
  then have 1: "clause_tokens p = map trim ts" by (simp add: clause_tokens_def)
  have 2: "clause_entry p = (trim (hd ts), map trim (tl ts))"
    using ts by (simp add: clause_entry_def 1 hd_map map_tl)
  have "trim t \<noteq> []" if "t \<in> set ts" for t
    using that assms(2) trim_nonempty[of _ t] by blast
  then have 3: "[] \<notin> set (clause_tokens p)" by (force simp: 1)
  have cp: "csp_pairs p = [p]"
    using pp by (simp add: csp_pairs_def js_split_no_sep)
  have 4: "deserializeCSP p = [(trim (hd ts), map trim (tl ts))]"
    if "trim (hd ts) \<noteq> ''__proto__''"
    using that by (simp add: deserializeCSP_entries csp_entries_def cp 2 obj_set_def)
  show ?thesis
    using 1 2 3 4 unfolding p_def by simp
qed

theorem clause_tokenization_witness:
  "js_join '' '' [''img-src'', ''x'' @ [CHR 0x09] @ ''y'', [CHR 0x09] @ ''data:'']
     \<in> set (csp_pairs (''a b; img-src x'' @ [CHR 0x09] @ ''y '' @ [CHR 0x09] @ ''data: ;''))
   \<and> clause_tokens (''img-src x'' @ [CHR 0x09] @ ''y '' @ [CHR 0x09] @ ''data:'')
     = [''img-src'', ''x'' @ [CHR 0x09] @ ''y'', ''data:'']
   \<and> deserializeCSP (''img-src x'' @ [CHR 0x09] @ ''y '' @ [CHR 0x09] @ ''data:'')
     = [(''img-src'', [''x'' @ [CHR 0x09] @ ''y'', ''data:''])]"
proof -
  define ts where "ts = [''img-src'', ''x'' @ [CHR 0x09] @ ''y'', [CHR 0x09] @ ''data:'']"
  have j: "js_join '' '' ts = ''img-src x'' @ [CHR 0x09] @ ''y '' @ [CHR 0x09] @ ''data:''"
    by (simp add: ts_def)
  have h1: "js_join '' '' ts
      \<in> set (csp_pairs (''a b; img-src x'' @ [CHR 0x09] @ ''y '' @ [CHR 0x09] @ ''data: ;''))"
    by (simp add: ts_def csp_pairs_def trim_def is_ws_def)
  have h2: "\<forall>t\<in>set ts. CHR '' '' \<notin> set t \<and> (\<exists>c\<in>set t. \<not> is_ws c)"
    by (simp add: ts_def is_ws_def)
  have t: "map trim ts = [''img-src'', ''x'' @ [CHR 0x09] @ ''y'', ''data:'']"
    "trim (hd ts) = ''img-src''" "map trim (tl ts) = [''x'' @ [CHR 0x09] @ ''y'', ''data:'']"
    by (simp_all add: ts_def trim_def is_ws_def)
  note c = clause_tokenization[OF h1 h2]
  from c have a: "clause_tokens (js_join '' '' ts) = [''img-src'', ''x'' @ [CHR 0x09] @ ''y'', ''data:'']"
    by (simp add: t)
  from c have b: "deserializeCSP (js_join '' '' ts)
      = [(''img-src'', [''x'' @ [CHR 0x09] @ ''y'', ''data:''])]"
    by (simp add: t)
  show ?thesis
    using h1 a b unfolding j unfolding ts_def by simp
qed

text \<open>
  The claim as it was stated fails: two spaces between two tokens give an empty value,
  and a tab between them gives one name that contains the tab.
\<close>

theorem clause_whitespace_counterexample:
  "deserializeCSP ''x  y'' = [(''x'', [[], ''y''])]
   \<and> deserializeCSP ''x y'' = [(''x'', [''y''])]
   \<and> deserializeCSP ''x  y'' \<noteq> deserializeCSP ''x y''
   \<and> deserializeCSP (''x'' @ [CHR 0x09] @ ''y'') = [(''x'' @ [CHR 0x09] @ ''y'', [])]
   \<and> deserializeCSP (''x'' @ [CHR 0x09] @ ''y'') \<noteq> deserializeCSP ''x y''"
  by (simp add: parser_eval)

section \<open>The editor\<close>

text \<open>
  C4 (as amended). At the menu, for an answer that is none of \<open>P\<close>, \<open>A\<close>, \<open>Q\<close> in either
  case: the next question is the one for the new value of the directive at position \<open>k\<close>
  of the enumeration of the keys (counted from 1) exactly when \<open>parseInt\<close> reads the answer
  as an integer \<open>k\<close> between 1 and the number of directives; \<open>parseInt\<close> skips leading
  white space, reads a sign and a prefix \<open>0x\<close>, and ignores what follows the digits. Every
  other answer prints the notice of an invalid selection and shows the menu again, with the
  same directive set. The answers \<open>0\<close> and the decimal numeral of the number of
  directives plus one are such answers.
\<close>

theorem menu_dispatch:
  assumes "st s = MENU"
    and "toUpperCase answer \<noteq> ''P''" "toUpperCase answer \<noteq> ''A''" "toUpperCase answer \<noteq> ''Q''"
  shows "(\<forall>k. parseInt answer = Some k \<and> 1 \<le> k \<and> k \<le> int (length (dirs s)) \<longrightarrow>
            st (step s answer) = EDIT_VALUE (Object_keys (dirs s) ! nat (k - 1))
            \<and> dirs (step s answer) = dirs s)
    \<and> ((\<exists>k'. st (step s answer) = EDIT_VALUE k') \<longleftrightarrow>
         (\<exists>k. parseInt answer = Some k \<and> 1 \<le> k \<and> k \<le> int (length (dirs s))))
    \<and> ((\<nexists>k. parseInt answer = Some k \<and> 1 \<le> k \<and> k \<le> int (length (dirs s))) \<longrightarrow>
         step s answer = invalid_selection s)
    \<and> st (invalid_selection s) = MENU
    \<and> dirs (invalid_selection s) = dirs s
    \<and> out (invalid_selection s)
        = out s @ [Log ''Invalid selection. Please try again.''] @ menu_events (dirs s)
    \<and> step s ''0'' = invalid_selection s
    \<and> step s (show_nat (length (dirs s) + 1)) = invalid_selection s"
proof -
  note c = assms(2,3,4)
  have stp: "step s a = on_answer a s" for a using assms(1) by (simp add: step_simps)
  have 1: "st (step s answer) = EDIT_VALUE (Object_keys (dirs s) ! nat (k - 1))
            \<and> dirs (step s answer) = dirs s"
    if "parseInt answer = Some k" "1 \<le> k" "k \<le> int (length (dirs s))" for k
    using on_answer_other(3)[OF c that] by (simp add: stp)
  have 3: "step s answer = invalid_selection s"
    if n: "\<nexists>k. parseInt answer = Some k \<and> 1 \<le> k \<and> k \<le> int (length (dirs s))"
  proof (cases "parseInt answer")
    case None
    then show ?thesis using on_answer_other(1)[OF c] by (simp add: stp)
  next
    case (Some k)
    with n have "\<not> (1 \<le> k \<and> k \<le> int (length (dirs s)))" by simp
    with Some show ?thesis using on_answer_other(2)[OF c] by (simp add: stp)
  qed
  have 2: "(\<exists>k'. st (step s answer) = EDIT_VALUE k') \<longleftrightarrow>
         (\<exists>k. parseInt answer = Some k \<and> 1 \<le> k \<and> k \<le> int (length (dirs s)))"
  proof
    assume "\<exists>k'. st (step s answer) = EDIT_VALUE k'"
    then show "\<exists>k. parseInt answer = Some k \<and> 1 \<le> k \<and> k \<le> int (length (dirs s))"
      using 3 by (cases "\<exists>k. parseInt answer = Some k \<and> 1 \<le> k \<and> k \<le> int (length (dirs s))") auto
  next
    assume "\<exists>k. parseInt answer = Some k \<and> 1 \<le> k \<and> k \<le> int (length (dirs s))"
    then show "\<exists>k'. st (step s answer) = EDIT_VALUE k'" using 1 by blast
  qed
  have 6: "out (invalid_selection s)
        = out s @ [Log ''Invalid selection. Please try again.''] @ menu_events (dirs s)"
    by (simp add: invalid_selection_def editCSP_def)
  have z: "''0'' \<noteq> []" "list_all (is_radix_digit 10) ''0''"
    by (simp_all add: is_radix_digit_def digit_value_def)
  have "parseInt ''0'' = Some 0"
    using parseInt_digits[OF z] by (simp add: radix_value_def digit_of_def digit_value_def)
  then have 7: "step s ''0'' = invalid_selection s"
    using on_answer_other(2)[OF digits_no_command[OF z], of 0 s] by (simp add: stp)
  define m where "m = show_nat (length (dirs s) + 1)"
  have md: "m \<noteq> []" "list_all (is_radix_digit 10) m"
    by (simp_all add: m_def show_nat_digits)
  have "parseInt m = Some (int (length (dirs s) + 1))"
    unfolding m_def by (rule parseInt_show_nat)
  then have 8: "step s m = invalid_selection s"
    using on_answer_other(2)[OF digits_no_command[OF md], of "int (length (dirs s) + 1)" s]
    by (simp add: stp)
  show ?thesis
    using 1 2 3 6 7 8 unfolding m_def by simp
qed

theorem menu_dispatch_witness:
  "st (step (editCSP [(''default-src'', [''x'']), (''img-src'', [''y''])] []) '' 2nd'')
     = EDIT_VALUE ''img-src''
   \<and> step (editCSP [(''default-src'', [''x'']), (''img-src'', [''y''])] []) ''3''
     = invalid_selection (editCSP [(''default-src'', [''x'']), (''img-src'', [''y''])] [])
   \<and> step (editCSP [(''default-src'', [''x'']), (''img-src'', [''y''])] []) ''two''
     = invalid_selection (editCSP [(''default-src'', [''x'']), (''img-src'', [''y''])] [])"
proof -
  define s where "s = editCSP [(''default-src'', [''x'']), (''img-src'', [''y''])] []"
  have m: "st s = MENU" and d: "dirs s = [(''default-src'', [''x'']), (''img-src'', [''y''])]"
    by (simp_all add: s_def)
  have c2: "toUpperCase '' 2nd'' \<noteq> ''P''" "toUpperCase '' 2nd'' \<noteq> ''A''" "toUpperCase '' 2nd'' \<noteq> ''Q''"
    and ct: "toUpperCase ''two'' \<noteq> ''P''" "toUpperCase ''two'' \<noteq> ''A''" "toUpperCase ''two'' \<noteq> ''Q''"
    by (simp_all add: toUpperCase_def upper_char_def)
  have p2: "parseInt '' 2nd'' = Some 2"
    by (simp add: parseInt_def is_ws_def is_radix_digit_def digit_value_def radix_value_def digit_of_def)
  have pt: "parseInt ''two'' = None"
    by (simp add: parseInt_def is_ws_def is_radix_digit_def digit_value_def)
  have a: "st (step s '' 2nd'') = EDIT_VALUE ''img-src''"
    using menu_dispatch[OF m c2, THEN conjunct1, rule_format, of 2] p2
    by (simp add: d Object_keys_def)
  have sn: "show_nat (length (dirs s) + 1) = ''3''"
    by (subst show_nat.simps) (simp add: d char_of_eq_iff)
  have b: "step s ''3'' = invalid_selection s"
    using menu_dispatch[OF m c2] by (simp only: sn)
  have c: "step s ''two'' = invalid_selection s"
    using menu_dispatch[OF m ct, THEN conjunct2, THEN conjunct2, THEN conjunct1] pt by simp
  show ?thesis using a b c unfolding s_def by blast
qed

text \<open>
  The claim as it was stated fails. The answer \<open>1abc\<close> is no command and is not the
  numeral of an integer, and it selects the first directive. The position is the one in the
  enumeration of the keys, which is not the order of insertion when a name is an array
  index: after \<open>b 1; 1 2\<close> the answer \<open>1\<close> selects the directive \<open>1\<close>, which was
  inserted second.
\<close>

theorem menu_dispatch_counterexample:
  "st (step (editCSP [(''a'', [''x''])] []) ''1abc'') = EDIT_VALUE ''a''
   \<and> spec_integer ''1abc'' = None
   \<and> toUpperCase ''1abc'' \<noteq> ''P'' \<and> toUpperCase ''1abc'' \<noteq> ''A'' \<and> toUpperCase ''1abc'' \<noteq> ''Q''
   \<and> st (step (editCSP (deserializeCSP ''b 1; 1 2'') []) ''1'') = EDIT_VALUE ''1''
   \<and> first_occs (map fst (csp_entries ''b 1; 1 2'')) ! 0 = ''b''"
proof -
  have p1: "parseInt ''1abc'' = Some 1" "parseInt ''1'' = Some 1"
    by (simp_all add: parseInt_def is_ws_def is_radix_digit_def digit_value_def radix_value_def
        digit_of_def)
  have u: "toUpperCase ''1abc'' = ''1ABC''" "toUpperCase ''1'' = ''1''"
    by (simp_all add: toUpperCase_def upper_char_def char_of_eq_iff)
  have 1: "st (step (editCSP [(''a'', [''x''])] []) ''1abc'') = EDIT_VALUE ''a''"
    by (simp add: step_def editCSP_def on_answer_def p1 u Object_keys_def Let_def)
  have 2: "spec_integer ''1abc'' = None"
    by (simp add: spec_integer_def is_radix_digit_def digit_value_def)
  have d: "deserializeCSP ''b 1; 1 2'' = [(''1'', [''2'']), (''b'', [''1''])]"
    by (simp add: parser_eval)
  have 3: "st (step (editCSP (deserializeCSP ''b 1; 1 2'') []) ''1'') = EDIT_VALUE ''1''"
    unfolding d by (simp add: step_def editCSP_def on_answer_def p1 u Object_keys_def Let_def)
  have 4: "first_occs (map fst (csp_entries ''b 1; 1 2'')) ! 0 = ''b''"
    by (simp add: parser_eval)
  show ?thesis using 1 2 3 4 u by simp
qed

text \<open>
  C5 (as amended). No name and no value of a parsed policy contains \<open>;\<close>. The editor
  does not look for the separator in what the user types: from the start of the program on,
  the directive set is free of \<open>;\<close> as long as no input line contains one.
\<close>

theorem separator_invariant:
  assumes "\<forall>line\<in>set inputs. CHR '';'' \<notin> set line"
  shows "no_separator (deserializeCSP csp)
    \<and> no_separator (dirs (run (start arg r) inputs))"
  using assms
  by (simp add: no_separator_deserializeCSP no_separator_run session_ok_start no_separator_start)

theorem separator_invariant_witness:
  "dirs (run (start (Some ''u'') (Response (Some ''a 1;b 2''))) [''2'', ''x y'', ''A'', ''c z''])
     = [(''a'', [''1'']), (''b'', [''x'', ''y'']), (''c'', [''z''])]
   \<and> no_separator [(''a'', [''1'']), (''b'', [''x'', ''y'']), (''c'', [''z''])]"
proof -
  have h: "\<forall>line\<in>set [''2'', ''x y'', ''A'', ''c z'']. CHR '';'' \<notin> set line" by simp
  have d: "deserializeCSP ''a 1;b 2'' = [(''a'', [''1'']), (''b'', [''2''])]"
    by (simp add: parser_eval)
  have s0: "start (Some ''u'') (Response (Some ''a 1;b 2''))
      = editCSP [(''a'', [''1'']), (''b'', [''2''])] []"
    by (simp add: start_def getCSP_def d)
  have p: "parseInt ''2'' = Some 2"
    by (simp add: parseInt_def is_ws_def is_radix_digit_def digit_value_def radix_value_def
        digit_of_def)
  have u: "toUpperCase ''2'' = ''2''" "toUpperCase ''A'' = ''A''"
    by (simp_all add: toUpperCase_def upper_char_def char_of_eq_iff)
  have 1: "step (editCSP [(''a'', [''1'']), (''b'', [''2''])] []) ''2''
      = \<lparr>st = EDIT_VALUE ''b'', dirs = [(''a'', [''1'']), (''b'', [''2''])],
         out = out (step (editCSP [(''a'', [''1'']), (''b'', [''2''])] []) ''2'')\<rparr>"
    by (simp add: step_def editCSP_def on_answer_def p u Object_keys_def Let_def)
  have r: "dirs (run (start (Some ''u'') (Response (Some ''a 1;b 2''))) [''2'', ''x y'', ''A'', ''c z''])
     = [(''a'', [''1'']), (''b'', [''x'', ''y'']), (''c'', [''z''])]"
    unfolding s0 run_def
    apply (simp only: foldl.simps)
    apply (subst 1)
    apply (simp add: step_def on_newValue_def on_newDirective_def on_answer_def u editCSP_def
        addDirective_def space_tokens_def obj_set_def is_array_index_def is_radix_digit_def
        digit_value_def)
    done
  from separator_invariant[OF h, of "''a 1;b 2''" "Some ''u''" "Response (Some ''a 1;b 2'')"]
  show ?thesis by (simp add: r)
qed

text \<open>
  The claim as it was stated fails: a new value and the name of a new directive keep the
  \<open>;\<close> that the user types.
\<close>

theorem separator_counterexample:
  "dirs (step \<lparr>st = EDIT_VALUE ''a'', dirs = [(''a'', [''x''])], out = []\<rparr> ''y;z'')
     = [(''a'', [''y;z''])]
   \<and> no_separator [(''a'', [''x''])]
   \<and> \<not> no_separator [(''a'', [''y;z''])]
   \<and> dirs (step \<lparr>st = ADD_NAME, dirs = [(''a'', [''x''])], out = []\<rparr> ''b;c d'')
     = [(''a'', [''x'']), (''b;c'', [''d''])]"
  by (simp add: step_def on_newValue_def on_newDirective_def editCSP_def space_tokens_def
      obj_set_def is_array_index_def is_radix_digit_def digit_value_def no_separator_def)

text \<open>
  C6 (as amended). When the question for the new value of a directive is pending, the
  next line is split at each space (U+0020) and the empty pieces are dropped; the value
  list of the directive becomes exactly these tokens, also when there is none; the keys
  stay; the menu is shown again. A line whose only white space is spaces is split as the
  specification says, on white space.
\<close>

theorem edit_value_replaces:
  assumes "session_ok s" and "st s = EDIT_VALUE k"
  shows "st (step s line) = MENU
    \<and> map_of (dirs (step s line)) k = Some (space_tokens line)
    \<and> Object_keys (dirs (step s line)) = Object_keys (dirs s)
    \<and> space_tokens line = filter (\<lambda>v. v \<noteq> []) (js_split CHR '' '' line)
    \<and> (space_tokens line = [] \<longleftrightarrow> (\<forall>c\<in>set line. c = CHR '' ''))
    \<and> ((\<forall>c\<in>set line. is_ws c \<longrightarrow> c = CHR '' '') \<longrightarrow> space_tokens line = spec_tokens line)"
proof -
  from assms have k: "k \<in> set (Object_keys (dirs s))" and wf: "obj_wf (dirs s)"
    by (simp_all add: session_ok_def)
  then have kp: "k \<noteq> ''__proto__''" by (auto simp add: obj_wf_def Object_keys_def simp del: set_map)
  have d: "dirs (step s line) = obj_set k (space_tokens line) (dirs s)"
    and 1: "st (step s line) = MENU"
    by (simp_all add: step_simps(2)[OF assms(2)])
  have 2: "map_of (dirs (step s line)) k = Some (space_tokens line)"
    using kp by (simp add: d map_of_obj_set)
  have 3: "Object_keys (dirs (step s line)) = Object_keys (dirs s)"
    using k kp by (simp add: d obj_set_def Object_keys_def keys_update_present del: set_map)
  show ?thesis
    using 1 2 3 spec_tokens_only_spaces[of line]
    by (simp add: space_tokens_Nil_iff) (simp add: space_tokens_def)
qed

theorem edit_value_replaces_witness:
  "dirs (step \<lparr>st = EDIT_VALUE ''img-src'', dirs = [(''a'', [''x'']), (''img-src'', [''y''])], out = []\<rparr>
      '' data:  https://cdn.example.com '')
     = [(''a'', [''x'']), (''img-src'', [''data:'', ''https://cdn.example.com''])]
   \<and> map_of (dirs (step \<lparr>st = EDIT_VALUE ''img-src'', dirs = [(''a'', [''x'']), (''img-src'', [''y''])], out = []\<rparr>
      ''  '')) ''img-src'' = Some []"
proof -
  define s where "s = \<lparr>st = EDIT_VALUE ''img-src'', dirs = [(''a'', [''x'']), (''img-src'', [''y''])], out = []\<rparr>"
  have h1: "session_ok s"
    by (simp add: s_def session_ok_def obj_wf_def key_before_def Object_keys_def is_array_index_def
        is_radix_digit_def digit_value_def)
  have h2: "st s = EDIT_VALUE ''img-src''" by (simp add: s_def)
  have a: "dirs (step s '' data:  https://cdn.example.com '')
     = [(''a'', [''x'']), (''img-src'', [''data:'', ''https://cdn.example.com''])]"
    by (simp add: s_def step_def on_newValue_def editCSP_def space_tokens_def obj_set_def)
  have t: "space_tokens ''  '' = []" by (simp add: space_tokens_def)
  from edit_value_replaces[OF h1 h2, of "''  ''"]
  have b: "map_of (dirs (step s ''  '')) ''img-src'' = Some []" by (simp add: t)
  show ?thesis using a b unfolding s_def by blast
qed

text \<open>
  The claim as it was stated fails: a tab is white space and does not separate the tokens of
  the new value.
\<close>

theorem edit_value_counterexample:
  "dirs (step \<lparr>st = EDIT_VALUE ''a'', dirs = [(''a'', [''x''])], out = []\<rparr>
      (''y'' @ [CHR 0x09] @ ''z''))
     = [(''a'', [''y'' @ [CHR 0x09] @ ''z''])]
   \<and> spec_tokens (''y'' @ [CHR 0x09] @ ''z'') = [''y'', ''z'']
   \<and> map_of (dirs (step \<lparr>st = EDIT_VALUE ''a'', dirs = [(''a'', [''x''])], out = []\<rparr>
        (''y'' @ [CHR 0x09] @ ''z''))) ''a'' \<noteq> Some (spec_tokens (''y'' @ [CHR 0x09] @ ''z''))"
  by (simp add: step_def on_newValue_def editCSP_def space_tokens_def obj_set_def
      spec_tokens_def is_ws_def)

text \<open>
  C7 (as amended). When the question for a new directive is pending, the next line is split
  at each space (U+0020) and the empty pieces are dropped. With no token (an empty line or
  spaces only) the notice of an invalid directive is printed, the same question is asked
  again and the directive set is unchanged. Otherwise the first token is the name and the
  others are the values; for a name other than \<open>__proto__\<close> the directive set then maps
  the name to these values and every other name as before, an existing name keeps its
  place, and the menu is shown again. A line whose only white space is spaces is split as
  the specification says, on white space.
\<close>

theorem add_directive_behaviour:
  assumes "st s = ADD_NAME"
  shows "(space_tokens line = [] \<longleftrightarrow> (\<forall>c\<in>set line. c = CHR '' ''))
    \<and> (space_tokens line = [] \<longrightarrow>
         step s line = addDirective (dirs s) (out s @ [Log ''Invalid directive. Please try again.''])
         \<and> st (step s line) = ADD_NAME \<and> dirs (step s line) = dirs s)
    \<and> (\<forall>name values. space_tokens line = name # values \<and> name \<noteq> ''__proto__'' \<longrightarrow>
         st (step s line) = MENU
         \<and> map_of (dirs (step s line)) = (map_of (dirs s))(name \<mapsto> values)
         \<and> set (Object_keys (dirs (step s line))) = insert name (set (Object_keys (dirs s)))
         \<and> (name \<in> set (Object_keys (dirs s)) \<longrightarrow>
              Object_keys (dirs (step s line)) = Object_keys (dirs s)))
    \<and> ((\<forall>c\<in>set line. is_ws c \<longrightarrow> c = CHR '' '') \<longrightarrow> space_tokens line = spec_tokens line)"
proof -
  have 2: "step s line = addDirective (dirs s) (out s @ [Log ''Invalid directive. Please try again.''])
         \<and> st (step s line) = ADD_NAME \<and> dirs (step s line) = dirs s"
    if "space_tokens line = []"
    using that assms by (simp add: step_simps on_newDirective_Nil)
  have 3: "st (step s line) = MENU
         \<and> map_of (dirs (step s line)) = (map_of (dirs s))(name \<mapsto> vals)
         \<and> set (Object_keys (dirs (step s line))) = insert name (set (Object_keys (dirs s)))
         \<and> (name \<in> set (Object_keys (dirs s)) \<longrightarrow>
              Object_keys (dirs (step s line)) = Object_keys (dirs s))"
    if t: "space_tokens line = name # vals" and n: "name \<noteq> ''__proto__''" for name vals
  proof -
    have d: "dirs (step s line) = obj_set name vals (dirs s)" and m: "st (step s line) = MENU"
      using assms t by (simp_all add: step_simps on_newDirective_Cons)
    have "Object_keys (obj_set name vals (dirs s)) = Object_keys (dirs s)"
      if "name \<in> set (Object_keys (dirs s))"
      using that n by (simp add: obj_set_def Object_keys_def keys_update_present del: set_map)
    then show ?thesis
      using n keys_obj_set[of name vals "dirs s"]
      by (simp add: d m map_of_obj_set Object_keys_def del: set_map)
  qed
  show ?thesis
    using 2 3 spec_tokens_only_spaces[of line] by (simp add: space_tokens_Nil_iff)
qed

theorem add_directive_behaviour_witness:
  "dirs (step \<lparr>st = ADD_NAME, dirs = [], out = []\<rparr> ''frame-ancestors  https://a.example'')
     = [(''frame-ancestors'', [''https://a.example''])]
   \<and> map_of (dirs (step \<lparr>st = ADD_NAME, dirs = [], out = []\<rparr> ''frame-ancestors  https://a.example''))
        ''frame-ancestors'' = Some [''https://a.example'']
   \<and> st (step \<lparr>st = ADD_NAME, dirs = [], out = []\<rparr> ''frame-ancestors  https://a.example'') = MENU
   \<and> st (step \<lparr>st = ADD_NAME, dirs = [], out = []\<rparr> ''   '') = ADD_NAME"
proof -
  define s where "s = \<lparr>st = ADD_NAME, dirs = [], out = []\<rparr>"
  have h: "st s = ADD_NAME" by (simp add: s_def)
  have t: "space_tokens ''frame-ancestors  https://a.example'' = [''frame-ancestors'', ''https://a.example'']"
    "space_tokens ''   '' = []"
    by (simp_all add: space_tokens_def)
  have a: "dirs (step s ''frame-ancestors  https://a.example'')
     = [(''frame-ancestors'', [''https://a.example''])]"
    by (simp add: s_def step_def on_newDirective_def editCSP_def space_tokens_def obj_set_def
        is_array_index_def is_radix_digit_def digit_value_def)
  from add_directive_behaviour[OF h, of "''frame-ancestors  https://a.example''",
      THEN conjunct2, THEN conjunct2, THEN conjunct1, rule_format,
      of "''frame-ancestors''" "[''https://a.example'']"] t(1)
  have b: "st (step s ''frame-ancestors  https://a.example'') = MENU"
    and c: "map_of (dirs (step s ''frame-ancestors  https://a.example'')) ''frame-ancestors''
        = Some [''https://a.example'']"
    by simp_all
  from add_directive_behaviour[OF h, of "''   ''"] t(2)
  have e: "st (step s ''   '') = ADD_NAME" by simp
  show ?thesis using a b c e unfolding s_def by blast
qed

text \<open>
  The claim as it was stated fails: a tab is white space and does not separate the name
  from a value; and for the name \<open>__proto__\<close> no entry is inserted.
\<close>

theorem add_directive_counterexample:
  "dirs (step \<lparr>st = ADD_NAME, dirs = [], out = []\<rparr> (''b'' @ [CHR 0x09] @ ''c''))
     = [(''b'' @ [CHR 0x09] @ ''c'', [])]
   \<and> spec_tokens (''b'' @ [CHR 0x09] @ ''c'') = [''b'', ''c'']
   \<and> map_of (dirs (step \<lparr>st = ADD_NAME, dirs = [], out = []\<rparr> (''b'' @ [CHR 0x09] @ ''c'')))
        ''b'' \<noteq> Some [''c'']
   \<and> dirs (step \<lparr>st = ADD_NAME, dirs = [], out = []\<rparr> ''__proto__ x'') = []
   \<and> st (step \<lparr>st = ADD_NAME, dirs = [], out = []\<rparr> ''__proto__ x'') = MENU"
  by (simp add: step_def on_newDirective_def editCSP_def space_tokens_def obj_set_def
      spec_tokens_def is_ws_def is_array_index_def is_radix_digit_def digit_value_def)

text \<open>
  C9. Frame of an edit: after a selection in range at the menu, the replacement of the value
  changes the value list of the selected directive only. The keys and their order are the
  same, every other name has the values it had, and the entries are the old ones with the
  selected one replaced in its place.
\<close>

theorem edit_frame:
  assumes "session_ok s" and "st s = MENU"
    and "toUpperCase answer \<noteq> ''P''" "toUpperCase answer \<noteq> ''A''" "toUpperCase answer \<noteq> ''Q''"
    and "parseInt answer = Some n" and "1 \<le> n" and "n \<le> int (length (dirs s))"
  shows "st (step s answer) = EDIT_VALUE (Object_keys (dirs s) ! nat (n - 1))
    \<and> dirs (step s answer) = dirs s
    \<and> st (step (step s answer) line) = MENU
    \<and> Object_keys (dirs (step (step s answer) line)) = Object_keys (dirs s)
    \<and> (\<forall>k'. k' \<noteq> Object_keys (dirs s) ! nat (n - 1) \<longrightarrow>
          map_of (dirs (step (step s answer) line)) k' = map_of (dirs s) k')
    \<and> map_of (dirs (step (step s answer) line)) (Object_keys (dirs s) ! nat (n - 1))
        = Some (space_tokens line)
    \<and> dirs (step (step s answer) line)
        = map (\<lambda>e. if fst e = Object_keys (dirs s) ! nat (n - 1)
                    then (Object_keys (dirs s) ! nat (n - 1), space_tokens line) else e) (dirs s)"
proof -
  define k where "k = Object_keys (dirs s) ! nat (n - 1)"
  define s1 where "s1 = step s answer"
  have s1: "st s1 = EDIT_VALUE k" "dirs s1 = dirs s"
    using on_answer_other(3)[OF assms(3,4,5,6,7,8)] assms(2)
    by (simp_all add: s1_def k_def step_simps)
  from assms(1) have wf: "obj_wf (dirs s)" by (simp add: session_ok_def)
  from assms(7,8) have "nat (n - 1) < length (Object_keys (dirs s))"
    by (auto simp: Object_keys_def)
  then have "Object_keys (dirs s) ! nat (n - 1) \<in> set (Object_keys (dirs s))" by (rule nth_mem)
  then have k: "k \<in> set (map fst (dirs s))" by (simp only: k_def Object_keys_def)
  with wf have kp: "k \<noteq> ''__proto__''" and dist: "distinct (map fst (dirs s))"
    by (auto simp add: obj_wf_def simp del: set_map)
  have "dirs (step s1 line) = obj_set k (space_tokens line) (dirs s)"
    and m: "st (step s1 line) = MENU"
    by (simp_all add: step_simps(2)[OF s1(1)] s1(2))
  then have d: "dirs (step s1 line) = AList.update k (space_tokens line) (dirs s)"
    using k kp by (simp add: obj_set_def)
  have 4: "Object_keys (dirs (step s1 line)) = Object_keys (dirs s)"
    using k by (simp add: d Object_keys_def keys_update_present del: set_map)
  have 5: "map_of (dirs (step s1 line)) k' = map_of (dirs s) k'" if "k' \<noteq> k" for k'
    using that by (simp add: d update_conv')
  have 6: "map_of (dirs (step s1 line)) k = Some (space_tokens line)"
    by (simp add: d update_conv')
  have 7: "dirs (step s1 line)
      = map (\<lambda>e. if fst e = k then (k, space_tokens line) else e) (dirs s)"
    unfolding d using dist k by (rule update_as_map)
  show ?thesis
    using s1 m 4 5 6 7 unfolding s1_def k_def by simp
qed

theorem edit_frame_witness:
  "dirs (step (step (editCSP [(''default-src'', [''x'']), (''img-src'', [''y''])] []) ''2'') ''z w'')
     = [(''default-src'', [''x'']), (''img-src'', [''z'', ''w''])]
   \<and> map_of (dirs (step (step (editCSP [(''default-src'', [''x'']), (''img-src'', [''y''])] []) ''2'')
        ''z w'')) ''default-src'' = Some [''x'']"
proof -
  define s where "s = editCSP [(''default-src'', [''x'']), (''img-src'', [''y''])] []"
  have d: "dirs s = [(''default-src'', [''x'']), (''img-src'', [''y''])]" and h2: "st s = MENU"
    by (simp_all add: s_def)
  have h1: "session_ok s"
    by (simp add: session_ok_def d h2 obj_wf_def key_before_def is_array_index_def
        is_radix_digit_def digit_value_def)
  have c: "toUpperCase ''2'' \<noteq> ''P''" "toUpperCase ''2'' \<noteq> ''A''" "toUpperCase ''2'' \<noteq> ''Q''"
    by (simp_all add: toUpperCase_def upper_char_def)
  have p: "parseInt ''2'' = Some 2"
    by (simp add: parseInt_def is_ws_def is_radix_digit_def digit_value_def radix_value_def
        digit_of_def)
  have r: "(1::int) \<le> 2" "2 \<le> int (length (dirs s))" by (simp_all add: d)
  have t: "space_tokens ''z w'' = [''z'', ''w'']" by (simp add: space_tokens_def)
  note f = edit_frame[OF h1 h2 c p r, of "''z w''"]
  from f have a: "dirs (step (step s ''2'') ''z w'')
      = [(''default-src'', [''x'']), (''img-src'', [''z'', ''w''])]"
    by (simp add: d t Object_keys_def)
  then have b: "map_of (dirs (step (step s ''2'') ''z w'')) ''default-src'' = Some [''x'']"
    by simp
  show ?thesis using a b unfolding s_def by blast
qed

section \<open>Concrete policies\<close>

text \<open>
  C8. Parsing \<open>upgrade-insecure-requests;\<close> keeps the directive, with no values, and
  serializing the result gives the name followed by the space of the template.
\<close>

theorem zero_value_directive:
  "deserializeCSP ''upgrade-insecure-requests;'' = [(''upgrade-insecure-requests'', [])]
   \<and> serializeCSP (deserializeCSP ''upgrade-insecure-requests;'') = ''upgrade-insecure-requests ''"
proof -
  have p: "deserializeCSP ''upgrade-insecure-requests;'' = [(''upgrade-insecure-requests'', [])]"
    by (simp add: parser_eval)
  show ?thesis
    unfolding p by (simp add: serializeCSP_def)
qed

text \<open>
  C10. The empty object, which \<open>getCSP\<close> returns when there is no header, when the header
  is empty and when the request fails, serializes to the empty string.
\<close>

theorem serialize_empty:
  "serializeCSP [] = []
   \<and> serializeCSP (fst (getCSP url (Response None))) = []
   \<and> serializeCSP (fst (getCSP url (Response (Some [])))) = []
   \<and> serializeCSP (fst (getCSP url (Failure msg))) = []"
  by (simp add: serializeCSP_def getCSP_def)

end
